theory Spec2Isabelle
  imports Main "HOL-Library.AList" "HOL-Library.Multiset"
begin

section \<open>Strings of the Python runtime\<close>

text \<open>
  A Python \<open>str\<close> is modelled as a \<open>string\<close> whose characters are the code points
  below 256. \<open>whitespace\<close> is \<open>str.isspace\<close> on that range: it is what
  \<open>str.strip()\<close> and \<open>str.split()\<close> without arguments remove.
\<close>

definition whitespace :: "char \<Rightarrow> bool" where
  "whitespace c = (of_char c \<in> {9, 10, 11, 12, 13, 28, 29, 30, 31, 32, 133, 160 :: nat})"

definition py_strip :: "string \<Rightarrow> string" where
  "py_strip s = rev (dropWhile whitespace (rev (dropWhile whitespace s)))"

text \<open>\<open>s.split(sep)\<close> for a one-character separator: never the empty list.\<close>

fun split_on :: "char \<Rightarrow> string \<Rightarrow> string list" where
  "split_on sep [] = [[]]"
| "split_on sep (x # xs) =
     (if x = sep then [] # split_on sep xs
      else (case split_on sep xs of
              [] \<Rightarrow> [[x]]
            | w # ws \<Rightarrow> (x # w) # ws))"

text \<open>\<open>s.split(sep, maxsplit)\<close>: at most \<open>maxsplit\<close> separators are consumed.\<close>

fun split_max :: "char \<Rightarrow> nat \<Rightarrow> string \<Rightarrow> string list" where
  "split_max sep 0 s = [s]"
| "split_max sep (Suc n) s =
     (if sep \<in> set s
      then takeWhile (\<lambda>c. c \<noteq> sep) s # split_max sep n (tl (dropWhile (\<lambda>c. c \<noteq> sep) s))
      else [s])"

text \<open>\<open>s.split()\<close>: the maximal runs of non-whitespace characters.\<close>

function py_split :: "string \<Rightarrow> string list" where
  "py_split s =
     (let t = dropWhile whitespace s
      in if t = [] then []
         else takeWhile (\<lambda>c. \<not> whitespace c) t # py_split (dropWhile (\<lambda>c. \<not> whitespace c) t))"
  by pat_completeness auto
termination
proof (relation "measure length")
  show "wf (measure length)" by simp
next
  fix s t :: string
  assume t: "t = dropWhile whitespace s" and ne: "t \<noteq> []"
  from ne obtain a r where ar: "t = a # r" by (cases t) simp_all
  have "\<not> whitespace (hd (dropWhile whitespace s))"
    using ne unfolding t by (rule hd_dropWhile)
  then have "\<not> whitespace (hd t)" unfolding t .
  then have "\<not> whitespace a" unfolding ar by simp
  then have "dropWhile (\<lambda>c. \<not> whitespace c) t = dropWhile (\<lambda>c. \<not> whitespace c) r"
    using ar by simp
  then have "length (dropWhile (\<lambda>c. \<not> whitespace c) t) \<le> length r"
    by (simp add: length_dropWhile_le)
  moreover have "length t \<le> length s" using t by (simp add: length_dropWhile_le)
  ultimately show "(dropWhile (\<lambda>c. \<not> whitespace c) t, s) \<in> measure length"
    using ar by simp
qed

declare py_split.simps [simp del]

text \<open>\<open>sep.join(xs)\<close>.\<close>

fun join :: "string \<Rightarrow> string list \<Rightarrow> string" where
  "join sep [] = []"
| "join sep [x] = x"
| "join sep (x # y # ys) = x @ sep @ join sep (y # ys)"

text \<open>The decimal digits of a natural number, as an f-string prints it.\<close>

definition digit :: "nat \<Rightarrow> char" where
  "digit k = char_of (48 + k)"

function str_nat :: "nat \<Rightarrow> string" where
  "str_nat n = (if n < 10 then [digit n] else str_nat (n div 10) @ [digit (n mod 10)])"
  by pat_completeness auto
termination
  by (relation "measure id") auto

declare str_nat.simps [simp del]

section \<open>The commit records and the log parser\<close>

text \<open>
  The dictionary that \<open>get_commits\<close> builds for one commit always has the four keys
  \<open>hash\<close>, \<open>message\<close>, \<open>parents\<close> and \<open>files\<close>: a record.
\<close>

record commit =
  hash :: string
  message :: string
  parents :: "string list"
  files :: "string list"

text \<open>The exceptions the modelled statements can raise.\<close>

datatype py_error = TypeError | ValueError | KeyError

text \<open>
  \<open>commit_hash, message, parent_hashes = parts if len(parts) == 3 else (*parts, '')\<close>:
  unpacking into three names raises \<open>ValueError\<close> unless the right-hand side has exactly
  three elements.
\<close>

definition unpack3 :: "string list \<Rightarrow> py_error + (string \<times> string \<times> string)" where
  "unpack3 parts =
     (case (if length parts = 3 then parts else parts @ [[]]) of
        [a, b, c] \<Rightarrow> Inr (a, b, c)
      | _ \<Rightarrow> Inl ValueError)"

text \<open>Lines 53 to 61 of \<open>get_commits\<close>: the record started by a header line.\<close>

definition parse_header :: "string \<Rightarrow> py_error + commit" where
  "parse_header line =
     (case unpack3 (split_max (CHR ''|'') 2 line) of
        Inl e \<Rightarrow> Inl e
      | Inr (commit_hash, msg, parent_hashes) \<Rightarrow>
          Inr \<lparr>hash = commit_hash, message = msg,
               parents = py_split (py_strip parent_hashes), files = []\<rparr>)"

text \<open>
  \<open>if current_commit: commits.append(current_commit)\<close>, at lines 51 and 65.
\<close>

definition flush :: "commit list \<Rightarrow> commit option \<Rightarrow> commit list" where
  "flush commits current_commit =
     (case current_commit of None \<Rightarrow> commits | Some c \<Rightarrow> commits @ [c])"

text \<open>
  The loop of \<open>get_commits\<close> over the lines, on the state \<open>(commits, current_commit)\<close>.
  \<open>current_commit\<close> is \<open>None\<close> until the first header line; a commit dictionary is
  never empty, so \<open>if current_commit:\<close> tests exactly for \<open>None\<close>. Subscripting
  \<open>None\<close> in the last branch raises \<open>TypeError\<close>.
\<close>

fun scan_lines :: "string list \<Rightarrow> commit list \<times> commit option \<Rightarrow> py_error + (commit list \<times> commit option)" where
  "scan_lines [] st = Inr st"
| "scan_lines (line # rest) (commits, current_commit) =
     (if line = [] then scan_lines rest (commits, current_commit)
      else if CHR ''|'' \<in> set line then
        (let commits1 = flush commits current_commit
         in case parse_header line of
              Inl e \<Rightarrow> Inl e
            | Inr c \<Rightarrow> scan_lines rest (commits1, Some c))
      else
        (case current_commit of
           None \<Rightarrow> Inl TypeError
         | Some c \<Rightarrow> scan_lines rest (commits, Some (c\<lparr>files := files c @ [py_strip line]\<rparr>))))"

text \<open>
  \<open>get_commits\<close> on the text that \<open>git log\<close> printed (\<open>result.stdout\<close>): strip, split
  at the newlines, scan, and append the last commit.
\<close>

definition get_commits :: "string \<Rightarrow> py_error + commit list" where
  "get_commits stdout =
     (case scan_lines (split_on (CHR 0x0A) (py_strip stdout)) ([], None) of
        Inl e \<Rightarrow> Inl e
      | Inr (commits, current_commit) \<Rightarrow> Inr (flush commits current_commit))"

section \<open>The graph builder\<close>

text \<open>
  The list \<open>graph\<close> collects lines of five shapes; \<open>render\<close> is the f-string of each.
\<close>

datatype gline =
  Text string
  | CommitNode string string
  | FileNode string string
  | TouchedEdge string string
  | DerivesEdge string string

fun render :: "gline \<Rightarrow> string" where
  "render (Text s) = s"
| "render (CommitNode msg commit_id) = ''rectangle '' @ [CHR 0x22] @ msg @ [CHR 0x22] @ '' as '' @ commit_id"
| "render (FileNode file_path file_id) = ''rectangle '' @ [CHR 0x22] @ file_path @ [CHR 0x22] @ '' as '' @ file_id"
| "render (TouchedEdge commit_id file_id) = commit_id @ '' --> '' @ file_id"
| "render (DerivesEdge parent_id child_id) = parent_id @ '' <|-- '' @ child_id"

text \<open>
  A Python \<open>dict\<close> from strings to strings, in insertion order: assigning to a present
  key replaces its value in place, assigning to a new key appends.
\<close>

type_synonym dict = "(string \<times> string) list"

definition dict_has :: "dict \<Rightarrow> string \<Rightarrow> bool" where
  "dict_has d k = (map_of d k \<noteq> None)"

definition dict_get :: "dict \<Rightarrow> string \<Rightarrow> py_error + string" where
  "dict_get d k = (case map_of d k of None \<Rightarrow> Inl KeyError | Some v \<Rightarrow> Inr v)"

definition dict_set :: "dict \<Rightarrow> string \<Rightarrow> string \<Rightarrow> dict" where
  "dict_set d k v = AList.update k v d"

definition commit_id :: "nat \<Rightarrow> string" where
  "commit_id n = ''Commit'' @ str_nat n"

definition file_id :: "nat \<Rightarrow> string" where
  "file_id n = ''File'' @ str_nat n"

text \<open>Lines 90 to 95: the files of one commit.\<close>

fun add_files :: "string \<Rightarrow> string list \<Rightarrow> gline list \<times> dict \<Rightarrow> py_error + (gline list \<times> dict)" where
  "add_files cid [] st = Inr st"
| "add_files cid (file_path # rest) (graph, file_defs) =
     (let (graph1, file_defs1) =
            (if \<not> dict_has file_defs file_path
             then (graph @ [FileNode file_path (file_id (length file_defs + 1))],
                   dict_set file_defs file_path (file_id (length file_defs + 1)))
             else (graph, file_defs))
      in case dict_get file_defs1 file_path of
           Inl e \<Rightarrow> Inl e
         | Inr fid \<Rightarrow> add_files cid rest (graph1 @ [TouchedEdge cid fid], file_defs1))"

text \<open>Lines 84 to 95: the first loop, over \<open>enumerate(reversed(commits))\<close> from \<open>idx\<close>.\<close>

fun add_commits :: "nat \<Rightarrow> commit list \<Rightarrow> gline list \<times> dict \<times> dict \<Rightarrow> py_error + (gline list \<times> dict \<times> dict)" where
  "add_commits idx [] st = Inr st"
| "add_commits idx (c # rest) (graph, commit_defs, file_defs) =
     (let cid = commit_id (idx + 1);
          commit_defs1 = dict_set commit_defs (hash c) cid;
          graph1 = graph @ [CommitNode (message c) cid]
      in case add_files cid (files c) (graph1, file_defs) of
           Inl e \<Rightarrow> Inl e
         | Inr (graph2, file_defs2) \<Rightarrow> add_commits (idx + 1) rest (graph2, commit_defs1, file_defs2))"

text \<open>Lines 100 to 103: the parents of one commit.\<close>

fun add_parents :: "dict \<Rightarrow> string \<Rightarrow> string list \<Rightarrow> gline list \<Rightarrow> py_error + gline list" where
  "add_parents commit_defs child_id [] graph = Inr graph"
| "add_parents commit_defs child_id (parent_hash # rest) graph =
     (if dict_has commit_defs parent_hash
      then (case dict_get commit_defs parent_hash of
              Inl e \<Rightarrow> Inl e
            | Inr parent_id \<Rightarrow>
                add_parents commit_defs child_id rest (graph @ [DerivesEdge parent_id child_id]))
      else add_parents commit_defs child_id rest graph)"

text \<open>Lines 98 to 103: the second loop, over \<open>reversed(commits)\<close>.\<close>

fun add_derives :: "dict \<Rightarrow> commit list \<Rightarrow> gline list \<Rightarrow> py_error + gline list" where
  "add_derives commit_defs [] graph = Inr graph"
| "add_derives commit_defs (c # rest) graph =
     (case dict_get commit_defs (hash c) of
        Inl e \<Rightarrow> Inl e
      | Inr child_id \<Rightarrow>
          (case add_parents commit_defs child_id (parents c) graph of
             Inl e \<Rightarrow> Inl e
           | Inr graph1 \<Rightarrow> add_derives commit_defs rest graph1))"

definition preamble :: "gline list" where
  "preamble = [Text ''@startuml'', Text ''skinparam rectangle {'',
               Text ''   BackgroundColor #FDF6E3'', Text ''}'']"

text \<open>The state \<open>(graph, commit_defs, file_defs)\<close> after the first loop.\<close>

definition node_pass :: "commit list \<Rightarrow> py_error + (gline list \<times> dict \<times> dict)" where
  "node_pass commits = add_commits 0 (rev commits) (preamble, [], [])"

text \<open>The list \<open>graph\<close> when \<open>build_graph\<close> joins it.\<close>

definition build_lines :: "commit list \<Rightarrow> py_error + gline list" where
  "build_lines commits =
     (case node_pass commits of
        Inl e \<Rightarrow> Inl e
      | Inr (graph1, commit_defs, file_defs) \<Rightarrow>
          (case add_derives commit_defs (rev commits) graph1 of
             Inl e \<Rightarrow> Inl e
           | Inr graph2 \<Rightarrow> Inr (graph2 @ [Text ''@enduml''])))"

definition build_graph :: "commit list \<Rightarrow> py_error + string" where
  "build_graph commits =
     (case build_lines commits of
        Inl e \<Rightarrow> Inl e
      | Inr graph \<Rightarrow> Inr (join [CHR 0x0A] (map render graph)))"

text \<open>\<open>run\<close> up to the text handed to \<open>save_output\<close>, and the lines behind it.\<close>

definition run_lines :: "string \<Rightarrow> py_error + gline list" where
  "run_lines stdout = (case get_commits stdout of Inl e \<Rightarrow> Inl e | Inr commits \<Rightarrow> build_lines commits)"

definition run :: "string \<Rightarrow> py_error + string" where
  "run stdout = (case get_commits stdout of Inl e \<Rightarrow> Inl e | Inr commits \<Rightarrow> build_graph commits)"

text \<open>The lines of each kind, in the order of the graph.\<close>

fun commit_nodes :: "gline list \<Rightarrow> (string \<times> string) list" where
  "commit_nodes [] = []"
| "commit_nodes (CommitNode m i # g) = (m, i) # commit_nodes g"
| "commit_nodes (_ # g) = commit_nodes g"

fun file_nodes :: "gline list \<Rightarrow> (string \<times> string) list" where
  "file_nodes [] = []"
| "file_nodes (FileNode p i # g) = (p, i) # file_nodes g"
| "file_nodes (_ # g) = file_nodes g"

fun touched_edges :: "gline list \<Rightarrow> (string \<times> string) list" where
  "touched_edges [] = []"
| "touched_edges (TouchedEdge c f # g) = (c, f) # touched_edges g"
| "touched_edges (_ # g) = touched_edges g"

fun derives_edges :: "gline list \<Rightarrow> (string \<times> string) list" where
  "derives_edges [] = []"
| "derives_edges (DerivesEdge p c # g) = (p, c) # derives_edges g"
| "derives_edges (_ # g) = derives_edges g"

section \<open>The builder on dictionaries without a storage order\<close>

text \<open>
  A Python \<open>dict\<close> keeps its entries in insertion order, and \<open>dict_set\<close> above models
  that. \<open>build_graph\<close> only tests membership, reads a value and takes \<open>len\<close>; whether
  its output depends on the order in which a dictionary holds its entries is stated on
  the same two loops run with a dictionary that is rearranged by \<open>store\<close> after every
  assignment. \<open>rearranges store\<close> says that \<open>store\<close> only permutes the entries; the
  identity gives the loops above.
\<close>

definition rearranges :: "(dict \<Rightarrow> dict) \<Rightarrow> bool" where
  "rearranges store = (\<forall>d. mset (store d) = mset d)"

fun add_files_stored :: "(dict \<Rightarrow> dict) \<Rightarrow> string \<Rightarrow> string list \<Rightarrow> gline list \<times> dict \<Rightarrow> py_error + (gline list \<times> dict)" where
  "add_files_stored store cid [] st = Inr st"
| "add_files_stored store cid (file_path # rest) (graph, file_defs) =
     (let (graph1, file_defs1) =
            (if \<not> dict_has file_defs file_path
             then (graph @ [FileNode file_path (file_id (length file_defs + 1))],
                   store (dict_set file_defs file_path (file_id (length file_defs + 1))))
             else (graph, file_defs))
      in case dict_get file_defs1 file_path of
           Inl e \<Rightarrow> Inl e
         | Inr fid \<Rightarrow> add_files_stored store cid rest (graph1 @ [TouchedEdge cid fid], file_defs1))"

fun add_commits_stored :: "(dict \<Rightarrow> dict) \<Rightarrow> nat \<Rightarrow> commit list \<Rightarrow> gline list \<times> dict \<times> dict \<Rightarrow> py_error + (gline list \<times> dict \<times> dict)" where
  "add_commits_stored store idx [] st = Inr st"
| "add_commits_stored store idx (c # rest) (graph, commit_defs, file_defs) =
     (let cid = commit_id (idx + 1);
          commit_defs1 = store (dict_set commit_defs (hash c) cid);
          graph1 = graph @ [CommitNode (message c) cid]
      in case add_files_stored store cid (files c) (graph1, file_defs) of
           Inl e \<Rightarrow> Inl e
         | Inr (graph2, file_defs2) \<Rightarrow>
             add_commits_stored store (idx + 1) rest (graph2, commit_defs1, file_defs2))"

definition node_pass_stored :: "(dict \<Rightarrow> dict) \<Rightarrow> commit list \<Rightarrow> py_error + (gline list \<times> dict \<times> dict)" where
  "node_pass_stored store commits = add_commits_stored store 0 (rev commits) (preamble, [], [])"

definition build_lines_stored :: "(dict \<Rightarrow> dict) \<Rightarrow> commit list \<Rightarrow> py_error + gline list" where
  "build_lines_stored store commits =
     (case node_pass_stored store commits of
        Inl e \<Rightarrow> Inl e
      | Inr (graph1, commit_defs, file_defs) \<Rightarrow>
          (case add_derives commit_defs (rev commits) graph1 of
             Inl e \<Rightarrow> Inl e
           | Inr graph2 \<Rightarrow> Inr (graph2 @ [Text ''@enduml''])))"

definition build_graph_stored :: "(dict \<Rightarrow> dict) \<Rightarrow> commit list \<Rightarrow> py_error + string" where
  "build_graph_stored store commits =
     (case build_lines_stored store commits of
        Inl e \<Rightarrow> Inl e
      | Inr graph \<Rightarrow> Inr (join [CHR 0x0A] (map render graph)))"

text \<open>Two dictionaries with the same keys, values and size, in any order.\<close>

definition same_entries :: "dict \<Rightarrow> dict \<Rightarrow> bool" where
  "same_entries d d' =
     (distinct (map fst d) \<and> distinct (map fst d') \<and> map_of d' = map_of d \<and> length d' = length d)"

section \<open>Inputs and notions used in the statements\<close>

text \<open>The log text of the scenario of the specification.\<close>

definition scenario :: string where
  "scenario = ''a1|Initial commit|'' @ [CHR 0x0A] @ ''file1.txt'' @ [CHR 0x0A] @
     ''a2|Add feature|a1'' @ [CHR 0x0A] @ ''file2.txt'' @ [CHR 0x0A] @ ''file1.txt''"

text \<open>A log text whose first line is a file path.\<close>

definition orphan_log :: string where
  "orphan_log = ''file1.txt'' @ [CHR 0x0A] @ ''a1|Initial commit|''"

text \<open>
  A parent hash as \<open>git log\<close> prints it: not empty and without whitespace.
\<close>

definition token :: "string \<Rightarrow> bool" where
  "token p = (p \<noteq> [] \<and> list_all (\<lambda>c. \<not> whitespace c) p)"

text \<open>
  The distinct elements of a list in the order of their first occurrence: the order in
  which \<open>file_defs\<close> receives its keys.
\<close>

definition first_occ :: "'a list \<Rightarrow> 'a list" where
  "first_occ xs = rev (remdups (rev xs))"

text \<open>
  \<open>file_defs\<close> after the file paths \<open>sofar\<close> have been visited: its keys are the
  distinct paths in first-seen order and its values are \<open>File1\<close>, \<open>File2\<close>, ...
\<close>

definition numbered :: "dict \<Rightarrow> string list \<Rightarrow> bool" where
  "numbered fd sofar =
     (map fst fd = first_occ sofar \<and> map snd fd = map file_id [1..<Suc (length fd)])"

text \<open>
  The position in \<open>commits\<close> of the first record with hash \<open>h\<close>, and the identifier
  that \<open>commit_defs\<close> holds for \<open>h\<close> after the first loop.
\<close>

definition first_index :: "string \<Rightarrow> commit list \<Rightarrow> nat" where
  "first_index h commits = length (takeWhile (\<lambda>c. hash c \<noteq> h) commits)"

definition node_of :: "commit list \<Rightarrow> string \<Rightarrow> string" where
  "node_of commits h = commit_id (length commits - first_index h commits)"

text \<open>The records that \<open>get_commits\<close> returns on the scenario.\<close>

definition scenario_commits :: "commit list" where
  "scenario_commits =
     [\<lparr>hash = ''a1'', message = ''Initial commit'', parents = [], files = [''file1.txt'']\<rparr>,
      \<lparr>hash = ''a2'', message = ''Add feature'', parents = [''a1''],
       files = [''file2.txt'', ''file1.txt'']\<rparr>]"

text \<open>
  Two records with the same hash; the first has a known and an unknown parent and
  lists the file \<open>f\<close> twice.
\<close>

definition dup_commits :: "commit list" where
  "dup_commits =
     [\<lparr>hash = ''h'', message = ''new'', parents = [''h'', ''z''], files = [''f'', ''f'']\<rparr>,
      \<lparr>hash = ''h'', message = ''old'', parents = [], files = [''g'', ''f'']\<rparr>]"

text \<open>One record that lists the file \<open>f\<close> twice.\<close>

definition twice_listed :: "commit list" where
  "twice_listed = [\<lparr>hash = ''h'', message = ''m'', parents = [], files = [''f'', ''f'']\<rparr>]"

text \<open>
  The identifier of the file node of a path: \<open>File(k+1)\<close> for the path at position
  \<open>k\<close> among the distinct paths in first-seen order, oldest record first.
\<close>

definition file_of :: "commit list \<Rightarrow> string \<Rightarrow> string" where
  "file_of commits p =
     file_id (Suc (length (takeWhile (\<lambda>q. q \<noteq> p) (first_occ (concat (map files (rev commits)))))))"

text \<open>
  Two records with different hashes: the first has a parent in the sequence and a
  parent outside it.
\<close>

definition known_unknown :: "commit list" where
  "known_unknown =
     [\<lparr>hash = ''b'', message = ''child'', parents = [''a'', ''k''], files = [''f2'', ''f1'']\<rparr>,
      \<lparr>hash = ''a'', message = ''root'', parents = [], files = [''f1'']\<rparr>]"

section \<open>The scenarios, evaluated\<close>

text \<open>
  C1 (fails on the code). On a text whose first non-empty line has no separator,
  \<open>get_commits\<close> subscripts \<open>None\<close>: the parse raises \<open>TypeError\<close>, the line is not
  discarded and no commit sequence is returned.
\<close>

theorem orphan_line_raises: "get_commits orphan_log = Inl TypeError"
  by code_simp

text \<open>
  C2, as stated (a1 gets the first commit identifier, file1.txt the first file
  identifier): not what the code computes on the scenario.
\<close>

theorem scenario_as_claimed_counterexample:
  "\<not> (map_sum id commit_nodes (run_lines scenario) =
          Inr [(''Initial commit'', ''Commit1''), (''Add feature'', ''Commit2'')]
      \<and> map_sum id file_nodes (run_lines scenario) =
          Inr [(''file1.txt'', ''File1''), (''file2.txt'', ''File2'')]
      \<and> map_sum id touched_edges (run_lines scenario) =
          Inr [(''Commit1'', ''File1''), (''Commit2'', ''File2''), (''Commit2'', ''File1'')]
      \<and> map_sum id derives_edges (run_lines scenario) = Inr [(''Commit1'', ''Commit2'')])"
  by code_simp

text \<open>
  C2, amended. The parser returns a1 then a2; the builder visits the sequence in reverse,
  so a2 is \<open>Commit1\<close> and a1 is \<open>Commit2\<close>, file2.txt is \<open>File1\<close> and file1.txt is
  \<open>File2\<close>; the touched edges are a2 to file2.txt, a2 to file1.txt, a1 to file1.txt, and
  the one derives edge goes from a1's node to a2's node.
\<close>

theorem scenario_graph:
  "get_commits scenario =
     Inr [\<lparr>hash = ''a1'', message = ''Initial commit'', parents = [], files = [''file1.txt'']\<rparr>,
          \<lparr>hash = ''a2'', message = ''Add feature'', parents = [''a1''],
           files = [''file2.txt'', ''file1.txt'']\<rparr>]
   \<and> run_lines scenario =
     Inr (preamble @
       [CommitNode ''Add feature'' ''Commit1'',
        FileNode ''file2.txt'' ''File1'', TouchedEdge ''Commit1'' ''File1'',
        FileNode ''file1.txt'' ''File2'', TouchedEdge ''Commit1'' ''File2'',
        CommitNode ''Initial commit'' ''Commit2'',
        TouchedEdge ''Commit2'' ''File2'',
        DerivesEdge ''Commit2'' ''Commit1'',
        Text ''@enduml''])
   \<and> run scenario =
     Inr (join [CHR 0x0A]
       [''@startuml'', ''skinparam rectangle {'', ''   BackgroundColor #FDF6E3'', ''}'',
        ''rectangle '' @ [CHR 0x22] @ ''Add feature'' @ [CHR 0x22] @ '' as Commit1'',
        ''rectangle '' @ [CHR 0x22] @ ''file2.txt'' @ [CHR 0x22] @ '' as File1'',
        ''Commit1 --> File1'',
        ''rectangle '' @ [CHR 0x22] @ ''file1.txt'' @ [CHR 0x22] @ '' as File2'',
        ''Commit1 --> File2'',
        ''rectangle '' @ [CHR 0x22] @ ''Initial commit'' @ [CHR 0x22] @ '' as Commit2'',
        ''Commit2 --> File2'',
        ''Commit2 <|-- Commit1'',
        ''@enduml''])"
  by code_simp

text \<open>
  C8, as stated (the graph of the empty text is the start and the end marker and nothing
  else): the code also emits its three styling lines.
\<close>

theorem empty_graph_only_markers_counterexample:
  "run_lines [] \<noteq> Inr [Text ''@startuml'', Text ''@enduml'']
   \<and> run [] \<noteq> Inr (join [CHR 0x0A] [''@startuml'', ''@enduml''])"
  by code_simp

text \<open>
  C8, amended. On the empty text the parser returns the empty sequence, and the builder
  returns, without an error, the start marker, the three fixed \<open>skinparam\<close> lines and the
  end marker: no commit node, no file node and no edge.
\<close>

theorem empty_input_graph:
  "get_commits [] = Inr []
   \<and> build_lines [] = Inr (preamble @ [Text ''@enduml''])
   \<and> run_lines [] = Inr (preamble @ [Text ''@enduml''])
   \<and> run [] =
     Inr (join [CHR 0x0A]
       [''@startuml'', ''skinparam rectangle {'', ''   BackgroundColor #FDF6E3'', ''}'',
        ''@enduml''])
   \<and> commit_nodes (preamble @ [Text ''@enduml'']) = []
   \<and> file_nodes (preamble @ [Text ''@enduml'']) = []
   \<and> touched_edges (preamble @ [Text ''@enduml'']) = []
   \<and> derives_edges (preamble @ [Text ''@enduml'']) = []"
  by code_simp

section \<open>Properties of the parser\<close>

subsection \<open>Splitting and stripping\<close>

lemma takeWhile_upto_sep: "sep \<notin> set a \<Longrightarrow> takeWhile (\<lambda>c. c \<noteq> sep) (a @ sep # r) = a"
  by (induction a) auto

lemma dropWhile_upto_sep: "sep \<notin> set a \<Longrightarrow> dropWhile (\<lambda>c. c \<noteq> sep) (a @ sep # r) = sep # r"
  by (induction a) auto

lemma split_max_two:
  assumes "sep \<notin> set a" and "sep \<notin> set b"
  shows "split_max sep 2 (a @ sep # b) = [a, b]"
proof -
  have "split_max sep (Suc (Suc 0)) (a @ sep # b) = [a, b]"
    using assms by (simp add: takeWhile_upto_sep dropWhile_upto_sep)
  then show ?thesis by (simp add: numeral_2_eq_2)
qed

lemma split_max_three:
  assumes "sep \<notin> set a" and "sep \<notin> set b"
  shows "split_max sep 2 (a @ sep # b @ sep # c) = [a, b, c]"
proof -
  have "split_max sep (Suc (Suc 0)) (a @ sep # b @ sep # c) = [a, b, c]"
    using assms by (simp add: takeWhile_upto_sep dropWhile_upto_sep)
  then show ?thesis by (simp add: numeral_2_eq_2)
qed

lemma py_strip_Nil: "py_strip [] = []"
  by (simp add: py_strip_def)

lemma py_split_Nil: "py_split [] = []"
  by (simp add: py_split.simps)

lemma parse_header_total:
  assumes "CHR ''|'' \<in> set line"
  shows "\<exists>c. parse_header line = Inr c"
proof -
  let ?r = "tl (dropWhile (\<lambda>c. c \<noteq> CHR ''|'') line)"
  have "split_max (CHR ''|'') (Suc (Suc 0)) line =
          takeWhile (\<lambda>c. c \<noteq> CHR ''|'') line # split_max (CHR ''|'') (Suc 0) ?r"
    using assms by simp
  then have "\<exists>a b c. unpack3 (split_max (CHR ''|'') 2 line) = Inr (a, b, c)"
    by (cases "CHR ''|'' \<in> set ?r") (simp_all add: numeral_2_eq_2 unpack3_def)
  then show ?thesis by (auto simp: parse_header_def)
qed

lemma py_strip_id:
  assumes "s = [] \<or> (\<not> whitespace (hd s) \<and> \<not> whitespace (last s))"
  shows "py_strip s = s"
proof (cases s)
  case Nil then show ?thesis by (simp add: py_strip_def)
next
  case (Cons a r)
  with assms have h: "\<not> whitespace a" and l: "\<not> whitespace (last s)" by auto
  have 1: "dropWhile whitespace s = s" using Cons h by simp
  have "s \<noteq> []" using Cons by simp
  then obtain ys y where ys: "s = ys @ [y]" by (cases s rule: rev_cases) simp_all
  have 2: "dropWhile whitespace (rev s) = rev s"
    using l unfolding ys by simp
  show ?thesis by (simp add: py_strip_def 1 2)
qed

lemma py_split_ws: "whitespace w \<Longrightarrow> py_split (w # s) = py_split s"
  by (subst py_split.simps, subst (2) py_split.simps) simp

lemma py_split_token_end:
  assumes "p \<noteq> []" and "\<forall>c\<in>set p. \<not> whitespace c"
  shows "py_split p = [p]"
proof -
  have 1: "dropWhile whitespace p = p" using assms by (cases p) auto
  have 2: "takeWhile (\<lambda>c. \<not> whitespace c) p = p" using assms by simp
  have 3: "dropWhile (\<lambda>c. \<not> whitespace c) p = []" using assms by simp
  show ?thesis using assms(1)
    by (subst py_split.simps) (simp add: 1 2 3 py_split_Nil)
qed

lemma py_split_token:
  assumes "p \<noteq> []" and "\<forall>c\<in>set p. \<not> whitespace c" and "whitespace w"
  shows "py_split (p @ w # s) = p # py_split s"
proof -
  have 1: "dropWhile whitespace (p @ w # s) = p @ w # s" using assms by (cases p) auto
  have 2: "takeWhile (\<lambda>c. \<not> whitespace c) (p @ w # s) = p"
    using assms by (simp add: takeWhile_tail)
  have 3: "dropWhile (\<lambda>c. \<not> whitespace c) (p @ w # s) = w # s"
    using assms by (simp add: dropWhile_append3)
  show ?thesis using assms(1,3)
    by (subst py_split.simps) (simp add: 1 2 3 py_split_ws)
qed

lemma whitespace_space: "whitespace (CHR '' '')"
  by (simp add: whitespace_def)

lemma py_split_join:
  assumes "list_all token ps"
  shows "py_split (join '' '' ps) = ps"
  using assms
proof (induction ps rule: induct_list012)
  case 1
  then show ?case by (simp add: py_split_Nil)
next
  case (2 x)
  then show ?case by (simp add: py_split_token_end token_def list_all_iff)
next
  case (3 x y ys)
  then show ?case
    using py_split_token [of x "CHR '' ''" "join '' '' (y # ys)"]
    by (simp add: token_def list_all_iff whitespace_space)
qed

lemma join_tokens_ends:
  assumes "list_all token ps" and "ps \<noteq> []"
  shows "join '' '' ps \<noteq> [] \<and> \<not> whitespace (hd (join '' '' ps)) \<and> \<not> whitespace (last (join '' '' ps))"
  using assms
proof (induction ps rule: induct_list012)
  case 1
  then show ?case by simp
next
  case (2 x)
  then show ?case by (cases x rule: rev_cases) (auto simp: token_def list_all_iff hd_append)
next
  case (3 x y ys)
  then show ?case by (cases x) (auto simp: token_def list_all_iff)
qed

lemma py_strip_join:
  assumes "list_all token ps"
  shows "py_strip (join '' '' ps) = join '' '' ps"
proof (cases ps)
  case Nil then show ?thesis by (simp add: py_strip_Nil)
next
  case Cons
  then show ?thesis using join_tokens_ends [OF assms] by (intro py_strip_id) simp
qed

subsection \<open>Once a header line has been read\<close>

text \<open>
  With a current commit the scan cannot fail: it returns, the commits already collected
  stay in front, and the current commit is in the output with the files that follow it.
\<close>

lemma scan_lines_current:
  "\<exists>cs c' more fs. scan_lines ls (commits, Some c) = Inr (cs, Some c')
      \<and> flush cs (Some c') = commits @ more \<and> c\<lparr>files := files c @ fs\<rparr> \<in> set more"
proof (induction ls arbitrary: commits c)
  case Nil
  have "flush commits (Some c) = commits @ [c] \<and> c\<lparr>files := files c @ []\<rparr> \<in> set [c]"
    by (simp add: flush_def)
  then show ?case by (metis scan_lines.simps(1))
next
  case (Cons line rest)
  show ?case
  proof (cases "line = []")
    case True
    then show ?thesis using Cons.IH [of commits c] by simp
  next
    case ne: False
    show ?thesis
    proof (cases "CHR ''|'' \<in> set line")
      case True
      then obtain c2 where c2: "parse_header line = Inr c2"
        using parse_header_total by blast
      from Cons.IH [of "commits @ [c]" c2]
      obtain cs c' more where
        r: "scan_lines rest (commits @ [c], Some c2) = Inr (cs, Some c')"
        and fl: "flush cs (Some c') = (commits @ [c]) @ more" by blast
      have "scan_lines (line # rest) (commits, Some c) = Inr (cs, Some c')"
        using ne True c2 r by (simp add: flush_def)
      moreover have "flush cs (Some c') = commits @ (c # more)" using fl by simp
      moreover have "c\<lparr>files := files c @ []\<rparr> \<in> set (c # more)" by simp
      ultimately show ?thesis by blast
    next
      case False
      let ?c1 = "c\<lparr>files := files c @ [py_strip line]\<rparr>"
      from Cons.IH [of commits ?c1]
      obtain cs c' more fs where
        r: "scan_lines rest (commits, Some ?c1) = Inr (cs, Some c')"
        and fl: "flush cs (Some c') = commits @ more"
        and m: "?c1\<lparr>files := files ?c1 @ fs\<rparr> \<in> set more" by blast
      have "scan_lines (line # rest) (commits, Some c) = Inr (cs, Some c')"
        using ne False r by simp
      moreover have "c\<lparr>files := files c @ (py_strip line # fs)\<rparr> \<in> set more" using m by simp
      ultimately show ?thesis using fl by blast
    qed
  qed
qed

subsection \<open>Header lines\<close>

text \<open>
  C6. A header line \<open>h|m|p1 p2 ...\<close> whose hash \<open>h\<close> and message \<open>m\<close> have no
  separator and whose parents are tokens joined by single spaces parses to the record
  \<open>(h, m, [p1, p2, ...])\<close>, and joining these fields again gives the line back. Only the
  first two separators are consumed: a separator inside a parent token stays in the
  third field.
\<close>

theorem header_round_trip:
  assumes "CHR ''|'' \<notin> set h" and "CHR ''|'' \<notin> set m" and "list_all token ps"
  shows "parse_header (h @ ''|'' @ m @ ''|'' @ join '' '' ps) =
           Inr \<lparr>hash = h, message = m, parents = ps, files = []\<rparr>
       \<and> join ''|'' [h, m, join '' '' ps] = h @ ''|'' @ m @ ''|'' @ join '' '' ps"
  using assms split_max_three [of "CHR ''|''" h m "join '' '' ps"]
  by (simp add: parse_header_def unpack3_def py_strip_join py_split_join)

text \<open>C6 at a line whose second parent contains the separator.\<close>

theorem header_round_trip_witness:
  "CHR ''|'' \<notin> set ''a2'' \<and> CHR ''|'' \<notin> set ''Add feature'' \<and> list_all token [''a1'', ''b|7'']
   \<and> parse_header ''a2|Add feature|a1 b|7'' =
       Inr \<lparr>hash = ''a2'', message = ''Add feature'', parents = [''a1'', ''b|7''], files = []\<rparr>
   \<and> join ''|'' [''a2'', ''Add feature'', join '' '' [''a1'', ''b|7'']] = ''a2|Add feature|a1 b|7''"
  using header_round_trip [of "''a2''" "''Add feature''" "[''a1'', ''b|7'']"]
  by (simp add: token_def whitespace_def)

text \<open>
  C7. A header line with exactly one separator, \<open>a|b\<close>, starts a record with hash
  \<open>a\<close>, message \<open>b\<close> and no parents. Scanning it and any lines after it, from any
  state, does not fail, and the output (the commits flushed before, then \<open>more\<close>)
  contains that record with the files collected for it.
\<close>

theorem header_without_parents_field:
  assumes "CHR ''|'' \<notin> set a" and "CHR ''|'' \<notin> set b"
  shows "parse_header (a @ ''|'' @ b) = Inr \<lparr>hash = a, message = b, parents = [], files = []\<rparr>
    \<and> (\<exists>cs c' more fs. scan_lines ((a @ ''|'' @ b) # rest) (commits, cur) = Inr (cs, Some c')
          \<and> flush cs (Some c') = flush commits cur @ more
          \<and> \<lparr>hash = a, message = b, parents = [], files = fs\<rparr> \<in> set more)"
proof -
  let ?line = "a @ ''|'' @ b"
  let ?c = "\<lparr>hash = a, message = b, parents = [], files = []\<rparr>"
  have p: "parse_header ?line = Inr ?c"
    using assms split_max_two [of "CHR ''|''" a b]
    by (simp add: parse_header_def unpack3_def py_strip_Nil py_split_Nil)
  from scan_lines_current [of rest "flush commits cur" ?c]
  obtain cs c' more fs where
    r: "scan_lines rest (flush commits cur, Some ?c) = Inr (cs, Some c')"
    and fl: "flush cs (Some c') = flush commits cur @ more"
    and m: "?c\<lparr>files := files ?c @ fs\<rparr> \<in> set more" by blast
  have "scan_lines (?line # rest) (commits, cur) = Inr (cs, Some c')"
    using p r by simp
  moreover have "\<lparr>hash = a, message = b, parents = [], files = fs\<rparr> \<in> set more"
    using m by simp
  ultimately show ?thesis using p fl by blast
qed

text \<open>C7 at the line \<open>a1|Initial commit\<close>.\<close>

theorem header_without_parents_field_witness:
  "CHR ''|'' \<notin> set ''a1'' \<and> CHR ''|'' \<notin> set ''Initial commit''
   \<and> parse_header ''a1|Initial commit'' =
       Inr \<lparr>hash = ''a1'', message = ''Initial commit'', parents = [], files = []\<rparr>"
  using header_without_parents_field [of "''a1''" "''Initial commit''" "[]" "[]" None]
  by simp

section \<open>Properties of the graph builder\<close>

subsection \<open>Identifiers and dictionaries\<close>

lemma first_occ_snoc:
  "first_occ (xs @ [x]) = (if x \<in> set xs then first_occ xs else first_occ xs @ [x])"
  by (simp add: first_occ_def)

lemma set_first_occ: "set (first_occ xs) = set xs"
  by (simp add: first_occ_def)

lemma distinct_first_occ: "distinct (first_occ xs)"
  by (simp add: first_occ_def)

lemma digit_inj: "a < 10 \<Longrightarrow> b < 10 \<Longrightarrow> digit a = digit b \<Longrightarrow> a = b"
  by (simp add: digit_def char_of_eq_iff take_bit_eq_mod)

lemma str_nat_ne: "str_nat n \<noteq> []"
  by (subst str_nat.simps) simp

lemma str_nat_inj: "str_nat n = str_nat m \<Longrightarrow> n = m"
proof (induction n arbitrary: m rule: str_nat.induct)
  case (1 n)
  show ?case
  proof (cases "n < 10")
    case True
    then have n: "str_nat n = [digit n]" by (subst str_nat.simps) simp
    show ?thesis
    proof (cases "m < 10")
      case True
      then have "str_nat m = [digit m]" by (subst str_nat.simps) simp
      with n "1.prems" have "digit n = digit m" by simp
      with \<open>n < 10\<close> True show ?thesis by (rule digit_inj)
    next
      case False
      then have "str_nat m = str_nat (m div 10) @ [digit (m mod 10)]"
        by (subst str_nat.simps) simp
      with n "1.prems" have "str_nat (m div 10) = []" by simp
      then show ?thesis by (simp add: str_nat_ne)
    qed
  next
    case False
    then have n: "str_nat n = str_nat (n div 10) @ [digit (n mod 10)]"
      by (subst str_nat.simps) simp
    show ?thesis
    proof (cases "m < 10")
      case True
      then have "str_nat m = [digit m]" by (subst str_nat.simps) simp
      with n "1.prems" have "str_nat (n div 10) = []" by simp
      then show ?thesis by (simp add: str_nat_ne)
    next
      case m: False
      then have "str_nat m = str_nat (m div 10) @ [digit (m mod 10)]"
        by (subst str_nat.simps) simp
      with n "1.prems" have e: "str_nat (n div 10) = str_nat (m div 10)"
        and d: "digit (n mod 10) = digit (m mod 10)" by simp_all
      from e have "n div 10 = m div 10" using "1.IH" False by simp
      moreover from d have "n mod 10 = m mod 10" by (intro digit_inj) simp_all
      ultimately show ?thesis by (metis div_mult_mod_eq)
    qed
  qed
qed

lemma commit_id_inj: "commit_id a = commit_id b \<Longrightarrow> a = b"
  by (simp add: commit_id_def str_nat_inj)

lemma file_id_inj: "file_id a = file_id b \<Longrightarrow> a = b"
  by (simp add: file_id_def str_nat_inj)

lemma dict_set_fresh: "map_of d k = None \<Longrightarrow> dict_set d k v = d @ [(k, v)]"
  unfolding dict_set_def by (induction d) (auto split: if_splits)

lemma map_of_dict_set: "map_of (dict_set d k v) = (map_of d)(k \<mapsto> v)"
  by (simp add: dict_set_def update_conv')

lemma map_of_extend: "map_of d k = Some v \<Longrightarrow> map_of (d @ e) k = Some v"
  by (simp add: map_add_Some_iff)

lemma commit_nodes_append: "commit_nodes (g @ h) = commit_nodes g @ commit_nodes h"
  by (induction g rule: commit_nodes.induct) simp_all

lemma file_nodes_append: "file_nodes (g @ h) = file_nodes g @ file_nodes h"
  by (induction g rule: file_nodes.induct) simp_all

lemma touched_edges_append: "touched_edges (g @ h) = touched_edges g @ touched_edges h"
  by (induction g rule: touched_edges.induct) simp_all

lemma derives_edges_append: "derives_edges (g @ h) = derives_edges g @ derives_edges h"
  by (induction g rule: derives_edges.induct) simp_all

lemmas proj_append = commit_nodes_append file_nodes_append touched_edges_append derives_edges_append

lemma numbered_has: "numbered fd sofar \<Longrightarrow> dict_has fd p = (p \<in> set sofar)"
proof -
  assume "numbered fd sofar"
  then have "set (map fst fd) = set sofar" by (simp add: numbered_def set_first_occ)
  then have "(p \<in> fst ` set fd) = (p \<in> set sofar)" by auto
  then show ?thesis by (simp add: dict_has_def map_of_eq_None_iff)
qed

lemma numbered_old: "numbered fd sofar \<Longrightarrow> p \<in> set sofar \<Longrightarrow> numbered fd (sofar @ [p])"
  by (simp add: numbered_def first_occ_snoc)

lemma numbered_new:
  "numbered fd sofar \<Longrightarrow> p \<notin> set sofar \<Longrightarrow>
   numbered (fd @ [(p, file_id (Suc (length fd)))]) (sofar @ [p])"
  by (simp add: numbered_def first_occ_snoc)

lemma add_files_spec:
  assumes "numbered fd sofar"
  shows "\<exists>g' fd' ext. add_files cid fps (g, fd) = Inr (g', fd') \<and> fd' = fd @ ext
      \<and> numbered fd' (sofar @ fps)
      \<and> commit_nodes g' = commit_nodes g
      \<and> file_nodes g' = file_nodes g @ ext
      \<and> touched_edges g' = touched_edges g @ map (\<lambda>p. (cid, the (map_of fd' p))) fps
      \<and> derives_edges g' = derives_edges g"
  using assms
proof (induction fps arbitrary: g fd sofar)
  case Nil
  then show ?case by simp
next
  case (Cons p ps)
  show ?case
  proof (cases "p \<in> set sofar")
    case True
    with Cons.prems have has: "dict_has fd p" by (simp add: numbered_has)
    then obtain v where v: "map_of fd p = Some v" by (auto simp: dict_has_def)
    have n: "numbered fd (sofar @ [p])" using Cons.prems True by (rule numbered_old)
    from Cons.IH [OF n, of "g @ [TouchedEdge cid v]"]
    obtain g' fd' ext where
      r: "add_files cid ps (g @ [TouchedEdge cid v], fd) = Inr (g', fd')"
      and e: "fd' = fd @ ext"
      and rest: "numbered fd' ((sofar @ [p]) @ ps)"
        "commit_nodes g' = commit_nodes (g @ [TouchedEdge cid v])"
        "file_nodes g' = file_nodes (g @ [TouchedEdge cid v]) @ ext"
        "touched_edges g' = touched_edges (g @ [TouchedEdge cid v]) @ map (\<lambda>p. (cid, the (map_of fd' p))) ps"
        "derives_edges g' = derives_edges (g @ [TouchedEdge cid v])"
      by blast
    have look: "map_of fd' p = Some v" unfolding e using v by (rule map_of_extend)
    have "add_files cid (p # ps) (g, fd) = Inr (g', fd')"
      using has v r by (simp add: dict_get_def)
    then show ?thesis using e rest look by (simp add: proj_append)
  next
    case False
    with Cons.prems have has: "\<not> dict_has fd p" by (simp add: numbered_has)
    then have none: "map_of fd p = None" by (simp add: dict_has_def)
    let ?i = "file_id (Suc (length fd))"
    let ?fd1 = "fd @ [(p, ?i)]"
    let ?g1 = "(g @ [FileNode p ?i]) @ [TouchedEdge cid ?i]"
    have n: "numbered ?fd1 (sofar @ [p])" using Cons.prems False by (rule numbered_new)
    from Cons.IH [OF n, of ?g1]
    obtain g' fd' ext where
      r: "add_files cid ps (?g1, ?fd1) = Inr (g', fd')"
      and e: "fd' = ?fd1 @ ext"
      and rest: "numbered fd' ((sofar @ [p]) @ ps)"
        "commit_nodes g' = commit_nodes ?g1"
        "file_nodes g' = file_nodes ?g1 @ ext"
        "touched_edges g' = touched_edges ?g1 @ map (\<lambda>p. (cid, the (map_of fd' p))) ps"
        "derives_edges g' = derives_edges ?g1"
      by blast
    have l1: "map_of ?fd1 p = Some ?i" using none by (simp add: map_add_Some_iff)
    then have look: "map_of fd' p = Some ?i" unfolding e by (rule map_of_extend)
    have get1: "dict_get ?fd1 p = Inr ?i" unfolding dict_get_def l1 by simp
    have "add_files cid (p # ps) (g, fd) = Inr (g', fd')"
      using has r by (simp add: dict_set_fresh [OF none] get1)
    moreover have "fd' = fd @ ((p, ?i) # ext)" using e by simp
    ultimately show ?thesis using rest look by (simp add: proj_append)
  qed
qed

subsection \<open>The two loops\<close>

lemma numbered_stable:
  assumes "numbered fd sofar" and "p \<in> set sofar"
  shows "map_of (fd @ e) p = map_of fd p"
proof -
  have "p \<in> fst ` set fd"
    using assms set_first_occ [of sofar] by (metis numbered_def set_map)
  then obtain v where "map_of fd p = Some v"
    by (metis map_of_eq_None_iff not_None_eq)
  then show ?thesis by (simp add: map_of_extend)
qed

lemma map_add_upd_left: "m(k \<mapsto> v) ++ M = m ++ ([k \<mapsto> v] ++ M)"
  by (rule ext) (simp add: map_add_def split: option.splits)

lemma add_commits_spec:
  assumes "numbered fd sofar"
  shows "\<exists>g' cd' fd' ext. add_commits idx cs (g, cd, fd) = Inr (g', cd', fd') \<and> fd' = fd @ ext
     \<and> numbered fd' (sofar @ concat (map files cs))
     \<and> map_of cd' = map_of cd ++ map_of (rev (map (\<lambda>(i, c). (hash c, commit_id (Suc i))) (enumerate idx cs)))
     \<and> commit_nodes g' = commit_nodes g @ map (\<lambda>(i, c). (message c, commit_id (Suc i))) (enumerate idx cs)
     \<and> file_nodes g' = file_nodes g @ ext
     \<and> touched_edges g' = touched_edges g @
          concat (map (\<lambda>(i, c). map (\<lambda>p. (commit_id (Suc i), the (map_of fd' p))) (files c)) (enumerate idx cs))
     \<and> derives_edges g' = derives_edges g"
  using assms
proof (induction cs arbitrary: idx g cd fd sofar)
  case Nil
  then show ?case by simp
next
  case (Cons c cs)
  let ?cid = "commit_id (Suc idx)"
  let ?g1 = "g @ [CommitNode (message c) ?cid]"
  let ?cd1 = "dict_set cd (hash c) ?cid"
  from add_files_spec [OF Cons.prems, of ?cid "files c" ?g1]
  obtain g2 fd2 ext1 where
    f: "add_files ?cid (files c) (?g1, fd) = Inr (g2, fd2)" and e1: "fd2 = fd @ ext1"
    and n2: "numbered fd2 (sofar @ files c)"
    and p2: "commit_nodes g2 = commit_nodes ?g1" "file_nodes g2 = file_nodes ?g1 @ ext1"
      "touched_edges g2 = touched_edges ?g1 @ map (\<lambda>p. (?cid, the (map_of fd2 p))) (files c)"
      "derives_edges g2 = derives_edges ?g1"
    by blast
  from Cons.IH [OF n2, of "Suc idx" g2 ?cd1]
  obtain g' cd' fd' ext2 where
    r: "add_commits (Suc idx) cs (g2, ?cd1, fd2) = Inr (g', cd', fd')" and e2: "fd' = fd2 @ ext2"
    and n': "numbered fd' ((sofar @ files c) @ concat (map files cs))"
    and cd': "map_of cd' = map_of ?cd1 ++
        map_of (rev (map (\<lambda>(i, c). (hash c, commit_id (Suc i))) (enumerate (Suc idx) cs)))"
    and p': "commit_nodes g' = commit_nodes g2 @
        map (\<lambda>(i, c). (message c, commit_id (Suc i))) (enumerate (Suc idx) cs)"
      "file_nodes g' = file_nodes g2 @ ext2"
      "touched_edges g' = touched_edges g2 @
          concat (map (\<lambda>(i, c). map (\<lambda>p. (commit_id (Suc i), the (map_of fd' p))) (files c))
            (enumerate (Suc idx) cs))"
      "derives_edges g' = derives_edges g2"
    by blast
  have run: "add_commits idx (c # cs) (g, cd, fd) = Inr (g', cd', fd')"
    using f r by simp
  have ext: "fd' = fd @ (ext1 @ ext2)" using e1 e2 by simp
  have same: "map (\<lambda>p. (?cid, the (map_of fd2 p))) (files c) =
              map (\<lambda>p. (?cid, the (map_of fd' p))) (files c)"
    unfolding e2 using numbered_stable [OF n2] by simp
  have hd: "map_of (rev (map (\<lambda>(i, c). (hash c, commit_id (Suc i))) (enumerate idx (c # cs)))) =
      [hash c \<mapsto> ?cid] ++
      map_of (rev (map (\<lambda>(i, c). (hash c, commit_id (Suc i))) (enumerate (Suc idx) cs)))"
    by simp
  have cdm: "map_of cd' = map_of cd ++
      map_of (rev (map (\<lambda>(i, c). (hash c, commit_id (Suc i))) (enumerate idx (c # cs))))"
    unfolding cd' hd map_of_dict_set by (rule map_add_upd_left)
  have c1: "commit_nodes g' = commit_nodes g @
      map (\<lambda>(i, c). (message c, commit_id (Suc i))) (enumerate idx (c # cs))"
    unfolding p'(1) p2(1) by (simp add: proj_append)
  have c2: "file_nodes g' = file_nodes g @ (ext1 @ ext2)"
    unfolding p'(2) p2(2) by (simp add: proj_append)
  have c3: "touched_edges g' = touched_edges g @
      concat (map (\<lambda>(i, c). map (\<lambda>p. (commit_id (Suc i), the (map_of fd' p))) (files c))
        (enumerate idx (c # cs)))"
    unfolding p'(3) p2(3) same by (simp add: proj_append)
  have c4: "derives_edges g' = derives_edges g"
    unfolding p'(4) p2(4) by (simp add: proj_append)
  have n'': "numbered fd' (sofar @ concat (map files (c # cs)))"
    using n' by simp
  show ?case
    using run ext n'' cdm c1 c2 c3 c4 by blast
qed

lemma add_parents_spec:
  "add_parents cd child ps g =
     Inr (g @ map (\<lambda>p. DerivesEdge (the (map_of cd p)) child) (filter (\<lambda>p. map_of cd p \<noteq> None) ps))"
  by (induction ps arbitrary: g) (auto simp: dict_has_def dict_get_def)

lemma add_derives_spec:
  assumes "\<forall>c\<in>set cs. map_of cd (hash c) \<noteq> None"
  shows "add_derives cd cs g =
     Inr (g @ concat (map (\<lambda>c. map (\<lambda>p. DerivesEdge (the (map_of cd p)) (the (map_of cd (hash c))))
                               (filter (\<lambda>p. map_of cd p \<noteq> None) (parents c))) cs))"
  using assms
proof (induction cs arbitrary: g)
  case Nil
  then show ?case by simp
next
  case (Cons c cs)
  then obtain v where v: "map_of cd (hash c) = Some v" by auto
  show ?case using Cons v by (simp add: dict_get_def add_parents_spec)
qed

lemma proj_derives:
  "commit_nodes (map (\<lambda>p. DerivesEdge (f p) (k p)) ps) = []"
  "file_nodes (map (\<lambda>p. DerivesEdge (f p) (k p)) ps) = []"
  "touched_edges (map (\<lambda>p. DerivesEdge (f p) (k p)) ps) = []"
  "derives_edges (map (\<lambda>p. DerivesEdge (f p) (k p)) ps) = map (\<lambda>p. (f p, k p)) ps"
  by (induction ps) simp_all

lemma proj_derives_concat:
  "commit_nodes (concat (map (\<lambda>c. map (\<lambda>p. DerivesEdge (f p) (k c)) (F c)) cs)) = []"
  "file_nodes (concat (map (\<lambda>c. map (\<lambda>p. DerivesEdge (f p) (k c)) (F c)) cs)) = []"
  "touched_edges (concat (map (\<lambda>c. map (\<lambda>p. DerivesEdge (f p) (k c)) (F c)) cs)) = []"
  "derives_edges (concat (map (\<lambda>c. map (\<lambda>p. DerivesEdge (f p) (k c)) (F c)) cs)) =
     concat (map (\<lambda>c. map (\<lambda>p. (f p, k c)) (F c)) cs)"
  by (induction cs) (simp_all add: proj_append proj_derives)

lemma rev_enumerate_rev:
  "rev (map (\<lambda>(i, c). F i c) (enumerate 0 (rev cs))) =
   map (\<lambda>(j, c). F (length cs - Suc j) c) (enumerate 0 cs)"
  by (rule nth_equalityI) (simp_all add: rev_nth nth_enumerate_eq)

lemma map_of_first:
  "map_of (map (\<lambda>(j, c). (hash c, G j)) (enumerate k cs)) h =
     (if h \<in> hash ` set cs then Some (G (k + length (takeWhile (\<lambda>c. hash c \<noteq> h) cs))) else None)"
  by (induction cs arbitrary: k) auto

lemma first_index_less: "h \<in> hash ` set cs \<Longrightarrow> first_index h cs < length cs"
  unfolding first_index_def by (induction cs) auto

lemma commit_defs_lookup:
  "map_of (rev (map (\<lambda>(i, c). (hash c, commit_id (Suc i))) (enumerate 0 (rev cs)))) h =
     (if h \<in> hash ` set cs then Some (node_of cs h) else None)"
proof -
  have "rev (map (\<lambda>(i, c). (hash c, commit_id (Suc i))) (enumerate 0 (rev cs))) =
        map (\<lambda>(j, c). (hash c, commit_id (Suc (length cs - Suc j)))) (enumerate 0 cs)"
    using rev_enumerate_rev [of "\<lambda>i c. (hash c, commit_id (Suc i))" cs] by simp
  then have "map_of (rev (map (\<lambda>(i, c). (hash c, commit_id (Suc i))) (enumerate 0 (rev cs)))) h =
     (if h \<in> hash ` set cs then Some (commit_id (Suc (length cs - Suc (first_index h cs)))) else None)"
    using map_of_first [of "\<lambda>j. commit_id (Suc (length cs - Suc j))" 0 cs h]
    by (simp add: first_index_def)
  moreover have "h \<in> hash ` set cs \<Longrightarrow> Suc (length cs - Suc (first_index h cs)) = length cs - first_index h cs"
    using first_index_less [of h cs] by simp
  ultimately show ?thesis by (simp add: node_of_def)
qed

subsection \<open>The graph of a commit sequence\<close>

lemma numbered_Nil: "numbered [] []"
  by (simp add: numbered_def first_occ_def)

lemma proj_preamble:
  "commit_nodes preamble = []" "file_nodes preamble = []"
  "touched_edges preamble = []" "derives_edges preamble = []"
  by (simp_all add: preamble_def)

lemma node_pass_spec:
  "\<exists>g1 cd fd. node_pass commits = Inr (g1, cd, fd)
     \<and> numbered fd (concat (map files (rev commits)))
     \<and> (\<forall>h. map_of cd h = (if h \<in> hash ` set commits then Some (node_of commits h) else None))
     \<and> commit_nodes g1 = map (\<lambda>(i, c). (message c, commit_id (Suc i))) (enumerate 0 (rev commits))
     \<and> file_nodes g1 = fd
     \<and> touched_edges g1 =
          concat (map (\<lambda>(i, c). map (\<lambda>p. (commit_id (Suc i), the (map_of fd p))) (files c))
            (enumerate 0 (rev commits)))
     \<and> derives_edges g1 = []"
proof -
  from add_commits_spec [OF numbered_Nil, of 0 "rev commits" preamble "[]"]
  obtain g1 cd fd ext where
    r: "add_commits 0 (rev commits) (preamble, [], []) = Inr (g1, cd, fd)"
    and e: "fd = [] @ ext"
    and n: "numbered fd ([] @ concat (map files (rev commits)))"
    and m: "map_of cd = map_of [] ++
        map_of (rev (map (\<lambda>(i, c). (hash c, commit_id (Suc i))) (enumerate 0 (rev commits))))"
    and p: "commit_nodes g1 = commit_nodes preamble @
        map (\<lambda>(i, c). (message c, commit_id (Suc i))) (enumerate 0 (rev commits))"
      "file_nodes g1 = file_nodes preamble @ ext"
      "touched_edges g1 = touched_edges preamble @
          concat (map (\<lambda>(i, c). map (\<lambda>p. (commit_id (Suc i), the (map_of fd p))) (files c))
            (enumerate 0 (rev commits)))"
      "derives_edges g1 = derives_edges preamble"
    by blast
  have 1: "node_pass commits = Inr (g1, cd, fd)" using r by (simp add: node_pass_def)
  have 2: "numbered fd (concat (map files (rev commits)))" using n by simp
  have 3: "\<forall>h. map_of cd h = (if h \<in> hash ` set commits then Some (node_of commits h) else None)"
    unfolding m using commit_defs_lookup [of commits] by simp
  have 4: "commit_nodes g1 = map (\<lambda>(i, c). (message c, commit_id (Suc i))) (enumerate 0 (rev commits))"
    unfolding p(1) by (simp add: proj_preamble)
  have 5: "file_nodes g1 = fd" unfolding p(2) using e by (simp add: proj_preamble)
  have 6: "touched_edges g1 =
          concat (map (\<lambda>(i, c). map (\<lambda>p. (commit_id (Suc i), the (map_of fd p))) (files c))
            (enumerate 0 (rev commits)))"
    unfolding p(3) by (simp add: proj_preamble)
  have 7: "derives_edges g1 = []" unfolding p(4) by (simp add: proj_preamble)
  show ?thesis using 1 2 3 4 5 6 7 by blast
qed

lemma build_lines_spec:
  assumes np: "node_pass commits = Inr (g1, cd, fd)"
    and cd: "\<forall>h. map_of cd h = (if h \<in> hash ` set commits then Some (node_of commits h) else None)"
  shows "build_lines commits =
     Inr (g1 @ concat (map (\<lambda>c. map (\<lambda>p. DerivesEdge (node_of commits p) (node_of commits (hash c)))
                                 (filter (\<lambda>p. p \<in> hash ` set commits) (parents c))) (rev commits))
             @ [Text ''@enduml''])"
proof -
  have known: "\<forall>c\<in>set (rev commits). map_of cd (hash c) \<noteq> None" using cd by simp
  have f: "\<And>c. filter (\<lambda>p. map_of cd p \<noteq> None) (parents c) =
                filter (\<lambda>p. p \<in> hash ` set commits) (parents c)"
    using cd by simp
  have "concat (map (\<lambda>c. map (\<lambda>p. DerivesEdge (the (map_of cd p)) (the (map_of cd (hash c))))
                               (filter (\<lambda>p. map_of cd p \<noteq> None) (parents c))) (rev commits)) =
        concat (map (\<lambda>c. map (\<lambda>p. DerivesEdge (node_of commits p) (node_of commits (hash c)))
                                 (filter (\<lambda>p. p \<in> hash ` set commits) (parents c))) (rev commits))"
    unfolding f
    by (rule arg_cong [where f = concat], rule map_cong, simp, rule map_cong, simp)
       (simp add: cd)
  then show ?thesis
    using np add_derives_spec [OF known, of g1] by (simp add: build_lines_def)
qed

lemma graph_spec:
  "\<exists>g1 cd fd g. node_pass commits = Inr (g1, cd, fd) \<and> build_lines commits = Inr g
     \<and> numbered fd (concat (map files (rev commits)))
     \<and> (\<forall>h. map_of cd h = (if h \<in> hash ` set commits then Some (node_of commits h) else None))
     \<and> commit_nodes g = map (\<lambda>(i, c). (message c, commit_id (Suc i))) (enumerate 0 (rev commits))
     \<and> file_nodes g = fd
     \<and> touched_edges g =
          concat (map (\<lambda>(i, c). map (\<lambda>p. (commit_id (Suc i), the (map_of fd p))) (files c))
            (enumerate 0 (rev commits)))
     \<and> derives_edges g =
          concat (map (\<lambda>c. map (\<lambda>p. (node_of commits p, node_of commits (hash c)))
                            (filter (\<lambda>p. p \<in> hash ` set commits) (parents c))) (rev commits))
     \<and> commit_nodes g1 = commit_nodes g \<and> file_nodes g1 = file_nodes g
     \<and> touched_edges g1 = touched_edges g"
proof -
  from node_pass_spec [of commits]
  obtain g1 cd fd where
    np: "node_pass commits = Inr (g1, cd, fd)"
    and n: "numbered fd (concat (map files (rev commits)))"
    and cd: "\<forall>h. map_of cd h = (if h \<in> hash ` set commits then Some (node_of commits h) else None)"
    and p: "commit_nodes g1 = map (\<lambda>(i, c). (message c, commit_id (Suc i))) (enumerate 0 (rev commits))"
      "file_nodes g1 = fd"
      "touched_edges g1 =
          concat (map (\<lambda>(i, c). map (\<lambda>p. (commit_id (Suc i), the (map_of fd p))) (files c))
            (enumerate 0 (rev commits)))"
      "derives_edges g1 = []"
    by blast
  let ?d = "concat (map (\<lambda>c. map (\<lambda>p. DerivesEdge (node_of commits p) (node_of commits (hash c)))
                                 (filter (\<lambda>p. p \<in> hash ` set commits) (parents c))) (rev commits))"
  let ?g = "g1 @ ?d @ [Text ''@enduml'']"
  have b: "build_lines commits = Inr ?g" using np cd by (rule build_lines_spec)
  have 1: "commit_nodes ?g = commit_nodes g1" by (simp add: proj_append proj_derives_concat)
  have 2: "file_nodes ?g = file_nodes g1" by (simp add: proj_append proj_derives_concat)
  have 3: "touched_edges ?g = touched_edges g1" by (simp add: proj_append proj_derives_concat)
  have 4: "derives_edges ?g = concat (map (\<lambda>c. map (\<lambda>p. (node_of commits p, node_of commits (hash c)))
                            (filter (\<lambda>p. p \<in> hash ` set commits) (parents c))) (rev commits))"
    by (simp add: proj_append proj_derives_concat p(4))
  show ?thesis
    apply (rule exI [of _ g1], rule exI [of _ cd], rule exI [of _ fd], rule exI [of _ ?g])
    unfolding 1 2 3 4 using np b n cd p by simp
qed

lemma proj_fst_enumerate: "map fst (map (\<lambda>(i, c). (F c, G i)) (enumerate k xs)) = map F xs"
  by (induction xs arbitrary: k) simp_all

lemma proj_snd_pairs: "map snd (map (\<lambda>(i, c). (F c, G i)) ys) = map G (map fst ys)"
  by (induction ys) auto

lemma proj_snd_enumerate:
  "map snd (map (\<lambda>(i, c). (F c, G i)) (enumerate k xs)) = map G [k..<k + length xs]"
  unfolding proj_snd_pairs by simp



lemma add_commits_parents_irrelevant:
  "add_commits idx (map (\<lambda>c. c\<lparr>parents := []\<rparr>) cs) st = add_commits idx cs st"
proof (induction cs arbitrary: idx st)
  case Nil
  then show ?case by simp
next
  case (Cons c cs)
  obtain g cd fd where st: "st = (g, cd, fd)" by (cases st)
  show ?case unfolding st using Cons.IH by (simp add: Let_def split: sum.splits)
qed

lemma node_pass_parents_irrelevant:
  "node_pass (map (\<lambda>c. c\<lparr>parents := []\<rparr>) commits) = node_pass commits"
  by (simp add: node_pass_def rev_map add_commits_parents_irrelevant)

lemma numbered_keys: "numbered fd A \<Longrightarrow> distinct (map fst fd) \<and> set (map fst fd) = set A"
  by (simp add: numbered_def distinct_first_occ set_first_occ)

lemma numbered_values: "numbered fd A \<Longrightarrow> distinct (map snd fd)"
proof -
  assume "numbered fd A"
  then have "map snd fd = map file_id [1..<Suc (length fd)]" by (simp add: numbered_def)
  moreover have "inj_on file_id (set [1..<Suc (length fd)])"
    by (rule inj_onI) (rule file_id_inj)
  ultimately show ?thesis by (simp add: distinct_map del: upt_Suc)
qed

lemma numbered_entry:
  assumes n: "numbered fd A" and p: "p \<in> set A"
  shows "\<exists>k. k < length (first_occ A) \<and> first_occ A ! k = p
            \<and> map_of fd p = Some (file_id (Suc k)) \<and> (p, file_id (Suc k)) \<in> set fd"
proof -
  have keys: "map fst fd = first_occ A" and vals: "map snd fd = map file_id [1..<Suc (length fd)]"
    using n by (simp_all add: numbered_def)
  have len: "length fd = length (first_occ A)" using keys by (metis length_map)
  from p have "p \<in> set (first_occ A)" by (simp add: set_first_occ)
  then obtain k where k: "k < length (first_occ A)" and pk: "first_occ A ! k = p"
    by (auto simp: in_set_conv_nth)
  have "fst (fd ! k) = map fst fd ! k" using k len by simp
  then have f: "fst (fd ! k) = p" using keys pk by simp
  have "snd (fd ! k) = map snd fd ! k" using k len by simp
  also have "\<dots> = file_id ([1..<Suc (length fd)] ! k)"
    unfolding vals using k len by (simp del: upt_Suc)
  also have "\<dots> = file_id (Suc k)" using k len by (simp del: upt_Suc)
  finally have s: "snd (fd ! k) = file_id (Suc k)" .
  have "fd ! k \<in> set fd" using k len by simp
  then have m: "(p, file_id (Suc k)) \<in> set fd" using f s by (metis prod.collapse)
  have "distinct (map fst fd)" using n by (simp add: numbered_keys)
  then have "map_of fd p = Some (file_id (Suc k))" using m by simp
  then show ?thesis using k pk m by blast
qed

lemma filter_key_unique:
  "distinct (map fst xs) \<Longrightarrow> (p, v) \<in> set xs \<Longrightarrow> filter (\<lambda>n. fst n = p) xs = [(p, v)]"
  by (induction xs) (force simp: filter_empty_conv)+

lemma filter_value_unique:
  "distinct (map snd xs) \<Longrightarrow> (p, v) \<in> set xs \<Longrightarrow> filter (\<lambda>n. snd n = v) xs = [(p, v)]"
  by (induction xs) (force simp: filter_empty_conv)+

lemma lookup_eq_iff:
  assumes dk: "distinct (map fst fd)" and dv: "distinct (map snd fd)"
    and p: "(p, fid) \<in> set fd" and q: "q \<in> fst ` set fd"
  shows "(the (map_of fd q) = fid) = (q = p)"
proof -
  from q obtain v where v: "(q, v) \<in> set fd" by auto
  have mq: "map_of fd q = Some v" using dk v by simp
  have mp: "map_of fd p = Some fid" using dk p by simp
  have inj: "inj_on snd (set fd)" using dv by (simp add: distinct_map)
  show ?thesis
  proof
    assume "the (map_of fd q) = fid"
    then have "v = fid" using mq by simp
    then have "snd (q, v) = snd (p, fid)" by simp
    with inj have "(q, v) = (p, fid)" using v p by (rule inj_onD)
    then show "q = p" by simp
  next
    assume "q = p"
    then show "the (map_of fd q) = fid" using mp by simp
  qed
qed

lemma lookup_count:
  assumes "distinct (map fst fd)" and "distinct (map snd fd)" and "(p, fid) \<in> set fd"
    and "set qs \<subseteq> fst ` set fd"
  shows "length (filter (\<lambda>e. snd e = fid) (map (\<lambda>q. (x, the (map_of fd q))) qs)) = count_list qs p"
  using assms(4)
proof (induction qs)
  case Nil
  then show ?case by simp
next
  case (Cons q qs)
  then have "q \<in> fst ` set fd" by simp
  then have "(the (map_of fd q) = fid) = (q = p)"
    using assms(1,2,3) by (intro lookup_eq_iff)
  then show ?case using Cons by auto
qed

lemma touched_count:
  assumes "distinct (map fst fd)" and "distinct (map snd fd)" and "(p, fid) \<in> set fd"
    and "\<forall>c\<in>set cs. set (files c) \<subseteq> fst ` set fd"
  shows "length (filter (\<lambda>e. snd e = fid)
           (concat (map (\<lambda>(i, c). map (\<lambda>q. (G i, the (map_of fd q))) (files c)) (enumerate k cs))))
         = (\<Sum>c\<leftarrow>cs. count_list (files c) p)"
  using assms(4)
proof (induction cs arbitrary: k)
  case Nil
  then show ?case by simp
next
  case (Cons c cs)
  then have "set (files c) \<subseteq> fst ` set fd" by simp
  then have "length (filter (\<lambda>e. snd e = fid) (map (\<lambda>q. (G k, the (map_of fd q))) (files c)))
      = count_list (files c) p"
    using assms(1,2,3) by (intro lookup_count)
  then show ?case using Cons by simp
qed

lemma distinct_count_list: "distinct xs \<Longrightarrow> count_list xs p = (if p \<in> set xs then 1 else 0)"
  by (induction xs) auto

lemma count_when_distinct:
  "\<forall>c\<in>set cs. distinct (files c) \<Longrightarrow>
   (\<Sum>c\<leftarrow>cs. count_list (files c) p) = length (filter (\<lambda>c. p \<in> set (files c)) cs)"
  by (induction cs) (simp_all add: distinct_count_list)

lemma first_index_props:
  assumes "h \<in> hash ` set cs"
  shows "first_index h cs < length cs \<and> hash (cs ! first_index h cs) = h
       \<and> (\<forall>i<first_index h cs. hash (cs ! i) \<noteq> h)"
proof -
  have l: "first_index h cs < length cs" using assms by (rule first_index_less)
  then have "\<not> hash (cs ! first_index h cs) \<noteq> h"
    unfolding first_index_def by (rule nth_length_takeWhile)
  moreover have "\<forall>i<first_index h cs. hash (cs ! i) \<noteq> h"
  proof (intro allI impI)
    fix i assume i: "i < first_index h cs"
    then have "takeWhile (\<lambda>c. hash c \<noteq> h) cs ! i \<in> set (takeWhile (\<lambda>c. hash c \<noteq> h) cs)"
      unfolding first_index_def by (rule nth_mem)
    then have "hash (takeWhile (\<lambda>c. hash c \<noteq> h) cs ! i) \<noteq> h" by (rule set_takeWhileD [THEN conjunct2])
    then show "hash (cs ! i) \<noteq> h" using i by (simp add: first_index_def takeWhile_nth)
  qed
  ultimately show ?thesis using l by simp
qed

lemma first_index_nth:
  assumes "j < length cs" and "first_index h cs = j"
  shows "first_index (hash (cs ! j)) cs = j"
proof -
  have "length (takeWhile (\<lambda>c. hash c \<noteq> h) cs) < length cs"
    using assms unfolding first_index_def by simp
  then have "\<not> hash (cs ! length (takeWhile (\<lambda>c. hash c \<noteq> h) cs)) \<noteq> h"
    by (rule nth_length_takeWhile)
  then have "hash (cs ! j) = h" using assms(2) unfolding first_index_def by simp
  then show ?thesis using assms(2) by simp
qed

subsection \<open>File identifiers and the closed form of the graph\<close>

lemma index_of_nth:
  "distinct F \<Longrightarrow> k < length F \<Longrightarrow> length (takeWhile (\<lambda>q. q \<noteq> F ! k) F) = k"
proof (induction F arbitrary: k)
  case Nil
  then show ?case by simp
next
  case (Cons x xs)
  show ?case
  proof (cases k)
    case 0
    then show ?thesis by simp
  next
    case (Suc k')
    with Cons.prems have k': "k' < length xs" and d: "distinct xs" and x: "x \<notin> set xs" by simp_all
    have "xs ! k' \<in> set xs" using k' by simp
    with x have "x \<noteq> xs ! k'" by blast
    then show ?thesis using Suc Cons.IH [OF d k'] by simp
  qed
qed

lemma numbered_lookup:
  assumes n: "numbered fd (concat (map files (rev commits)))"
    and p: "p \<in> set (concat (map files (rev commits)))"
  shows "map_of fd p = Some (file_of commits p)"
proof -
  let ?F = "first_occ (concat (map files (rev commits)))"
  from numbered_entry [OF n p]
  obtain k where k: "k < length ?F" and pk: "?F ! k = p"
    and m: "map_of fd p = Some (file_id (Suc k))" by blast
  have "length (takeWhile (\<lambda>q. q \<noteq> ?F ! k) ?F) = k"
    using distinct_first_occ k by (rule index_of_nth)
  then have "file_of commits p = file_id (Suc k)" unfolding pk by (simp add: file_of_def)
  then show ?thesis using m by simp
qed

lemma numbered_table:
  assumes n: "numbered fd (concat (map files (rev commits)))"
  shows "fd = map (\<lambda>p. (p, file_of commits p)) (first_occ (concat (map files (rev commits))))"
proof -
  let ?A = "concat (map files (rev commits))"
  let ?F = "first_occ ?A"
  have keys: "map fst fd = ?F" using n by (simp add: numbered_def)
  have len: "length fd = length ?F" using keys by (metis length_map)
  have dk: "distinct (map fst fd)" using numbered_keys [OF n] by simp
  show ?thesis
  proof (rule nth_equalityI)
    show "length fd = length (map (\<lambda>p. (p, file_of commits p)) ?F)" using len by simp
  next
    fix i assume i: "i < length fd"
    have f: "fst (fd ! i) = ?F ! i" using keys i by (metis nth_map)
    have "?F ! i \<in> set ?F" using i len by simp
    then have "?F ! i \<in> set ?A" by (simp add: set_first_occ)
    with n have m: "map_of fd (?F ! i) = Some (file_of commits (?F ! i))" by (rule numbered_lookup)
    have "fd ! i \<in> set fd" using i by simp
    then have "(fst (fd ! i), snd (fd ! i)) \<in> set fd" by simp
    with dk have "map_of fd (fst (fd ! i)) = Some (snd (fd ! i))" by (rule map_of_is_SomeI)
    with m f have "snd (fd ! i) = file_of commits (?F ! i)" by simp
    with f have "fd ! i = (?F ! i, file_of commits (?F ! i))" by (metis prod.collapse)
    then show "fd ! i = map (\<lambda>p. (p, file_of commits p)) ?F ! i" using i len by simp
  qed
qed

lemma file_of_inj:
  assumes p: "p \<in> set (concat (map files (rev commits)))"
    and q: "q \<in> set (concat (map files (rev commits)))"
    and e: "file_of commits q = file_of commits p"
  shows "q = p"
proof -
  let ?F = "first_occ (concat (map files (rev commits)))"
  from p have "p \<in> set ?F" by (simp add: set_first_occ)
  then obtain kp where kp: "kp < length ?F" and pk: "?F ! kp = p"
    by (auto simp: in_set_conv_nth)
  from q have "q \<in> set ?F" by (simp add: set_first_occ)
  then obtain kq where kq: "kq < length ?F" and qk: "?F ! kq = q"
    by (auto simp: in_set_conv_nth)
  have ip: "length (takeWhile (\<lambda>r. r \<noteq> p) ?F) = kp"
    using index_of_nth [OF distinct_first_occ kp] pk by simp
  have iq: "length (takeWhile (\<lambda>r. r \<noteq> q) ?F) = kq"
    using index_of_nth [OF distinct_first_occ kq] qk by simp
  from e have "Suc kq = Suc kp" unfolding file_of_def ip iq by (rule file_id_inj)
  then show ?thesis using pk qk by simp
qed

lemma graph_closed_form:
  "\<exists>g1 cd fd g. node_pass commits = Inr (g1, cd, fd) \<and> build_lines commits = Inr g
     \<and> (\<forall>h. map_of cd h = (if h \<in> hash ` set commits then Some (node_of commits h) else None))
     \<and> fd = map (\<lambda>p. (p, file_of commits p)) (first_occ (concat (map files (rev commits))))
     \<and> commit_nodes g = map (\<lambda>(i, c). (message c, commit_id (Suc i))) (enumerate 0 (rev commits))
     \<and> file_nodes g = map (\<lambda>p. (p, file_of commits p)) (first_occ (concat (map files (rev commits))))
     \<and> touched_edges g =
          concat (map (\<lambda>(i, c). map (\<lambda>p. (commit_id (Suc i), file_of commits p)) (files c))
            (enumerate 0 (rev commits)))
     \<and> derives_edges g =
          concat (map (\<lambda>c. map (\<lambda>p. (node_of commits p, node_of commits (hash c)))
                            (filter (\<lambda>p. p \<in> hash ` set commits) (parents c))) (rev commits))"
proof -
  let ?A = "concat (map files (rev commits))"
  from graph_spec [of commits]
  obtain g1 cd fd g where np: "node_pass commits = Inr (g1, cd, fd)"
    and b: "build_lines commits = Inr g"
    and n: "numbered fd ?A"
    and cd: "\<forall>h. map_of cd h = (if h \<in> hash ` set commits then Some (node_of commits h) else None)"
    and cn: "commit_nodes g = map (\<lambda>(i, c). (message c, commit_id (Suc i))) (enumerate 0 (rev commits))"
    and fn: "file_nodes g = fd"
    and t: "touched_edges g =
          concat (map (\<lambda>(i, c). map (\<lambda>p. (commit_id (Suc i), the (map_of fd p))) (files c))
            (enumerate 0 (rev commits)))"
    and d: "derives_edges g =
          concat (map (\<lambda>c. map (\<lambda>p. (node_of commits p, node_of commits (hash c)))
                            (filter (\<lambda>p. p \<in> hash ` set commits) (parents c))) (rev commits))"
    by blast
  have tab: "fd = map (\<lambda>p. (p, file_of commits p)) (first_occ ?A)" using n by (rule numbered_table)
  have look: "the (map_of fd p) = file_of commits p" if "c \<in> set (rev commits)" "p \<in> set (files c)" for c p
  proof -
    have "p \<in> set ?A" using that by auto
    with n have "map_of fd p = Some (file_of commits p)" by (rule numbered_lookup)
    then show ?thesis by simp
  qed
  have blocks: "map (\<lambda>(i, c). map (\<lambda>p. (commit_id (Suc i), the (map_of fd p))) (files c)) (enumerate 0 (rev commits))
      = map (\<lambda>(i, c). map (\<lambda>p. (commit_id (Suc i), file_of commits p)) (files c)) (enumerate 0 (rev commits))"
  proof (rule map_cong [OF refl])
    fix x assume x: "x \<in> set (enumerate 0 (rev commits))"
    obtain i c where ic: "x = (i, c)" by (cases x)
    with x have "i < length (rev commits)" and "c = rev commits ! i"
      by (auto simp: in_set_enumerate_eq)
    then have "c \<in> set (rev commits)" by (metis nth_mem)
    then have "map (\<lambda>p. (commit_id (Suc i), the (map_of fd p))) (files c) =
               map (\<lambda>p. (commit_id (Suc i), file_of commits p)) (files c)"
      using look by simp
    then show "(case x of (i, c) \<Rightarrow> map (\<lambda>p. (commit_id (Suc i), the (map_of fd p))) (files c)) =
               (case x of (i, c) \<Rightarrow> map (\<lambda>p. (commit_id (Suc i), file_of commits p)) (files c))"
      unfolding ic by simp
  qed
  have t': "touched_edges g =
          concat (map (\<lambda>(i, c). map (\<lambda>p. (commit_id (Suc i), file_of commits p)) (files c))
            (enumerate 0 (rev commits)))"
    unfolding t blocks ..
  have fn': "file_nodes g = map (\<lambda>p. (p, file_of commits p)) (first_occ ?A)"
    unfolding fn by (rule tab)
  show ?thesis using np b cd tab cn fn' t' d by blast
qed

lemma node_of_record:
  assumes j: "j < length commits"
  shows "rev commits ! (length commits - Suc j) = commits ! j"
    and "Suc (length commits - Suc j) = length commits - j"
  using j by (simp_all add: rev_nth)

lemma commit_nodes_nth:
  assumes cn: "commit_nodes g = map (\<lambda>(i, c). (message c, commit_id (Suc i))) (enumerate 0 (rev commits))"
    and j: "j < length commits"
  shows "commit_nodes g ! (length commits - Suc j) = (message (commits ! j), commit_id (length commits - j))"
proof -
  have "length commits - Suc j < length (rev commits)" using j by simp
  then have "commit_nodes g ! (length commits - Suc j) =
      (message (rev commits ! (length commits - Suc j)), commit_id (Suc (length commits - Suc j)))"
    unfolding cn by (simp add: nth_enumerate_eq)
  then show ?thesis unfolding node_of_record [OF j] .
qed

lemma pair_filter_count:
  "length (filter (\<lambda>e. e = (a, fid)) (map (\<lambda>q. (b, F q)) qs)) =
     (if a = b then length (filter (\<lambda>q. F q = fid) qs) else 0)"
  by (induction qs) auto

lemma key_count:
  assumes "\<forall>q\<in>set qs. (F q = fid) = (q = p)"
  shows "length (filter (\<lambda>q. F q = fid) qs) = count_list qs p"
  using assms by (induction qs) auto

lemma block_count:
  assumes inj: "\<And>a b. G a = G b \<Longrightarrow> a = b"
    and key: "\<forall>c\<in>set cs. \<forall>q\<in>set (files c). (F q = fid) = (q = p)"
  shows "length (filter (\<lambda>e. e = (G i0, fid))
           (concat (map (\<lambda>(i, c). map (\<lambda>q. (G i, F q)) (files c)) (enumerate k cs))))
         = (if k \<le> i0 \<and> i0 < k + length cs then count_list (files (cs ! (i0 - k))) p else 0)"
  using key
proof (induction cs arbitrary: k)
  case Nil
  then show ?case by simp
next
  case (Cons c cs)
  have kc: "\<forall>q\<in>set (files c). (F q = fid) = (q = p)" using Cons.prems by simp
  have same: "(G i0 = G k) = (i0 = k)" using inj by blast
  have blk: "length (filter (\<lambda>e. e = (G i0, fid)) (map (\<lambda>q. (G k, F q)) (files c))) =
      (if i0 = k then count_list (files c) p else 0)"
    unfolding pair_filter_count same using key_count [OF kc] by simp
  have rest: "length (filter (\<lambda>e. e = (G i0, fid))
           (concat (map (\<lambda>(i, c). map (\<lambda>q. (G i, F q)) (files c)) (enumerate (Suc k) cs))))
         = (if Suc k \<le> i0 \<and> i0 < Suc k + length cs then count_list (files (cs ! (i0 - Suc k))) p else 0)"
    using Cons.prems by (intro Cons.IH) simp
  have "length (filter (\<lambda>e. e = (G i0, fid))
           (concat (map (\<lambda>(i, c). map (\<lambda>q. (G i, F q)) (files c)) (enumerate k (c # cs))))) =
        (if i0 = k then count_list (files c) p else 0) +
        (if Suc k \<le> i0 \<and> i0 < Suc k + length cs then count_list (files (cs ! (i0 - Suc k))) p else 0)"
    using blk rest by simp
  also have "\<dots> = (if k \<le> i0 \<and> i0 < k + length (c # cs)
                     then count_list (files ((c # cs) ! (i0 - k))) p else 0)"
  proof (cases "i0 = k")
    case True
    then show ?thesis by simp
  next
    case False
    show ?thesis
    proof (cases "k < i0")
      case True
      then obtain d where d: "i0 - k = Suc d" and d': "i0 - Suc k = d"
        by (metis Suc_diff_Suc)
      show ?thesis using False True unfolding d d' by auto
    next
      case nlt: False
      with False have "i0 < k" by simp
      then show ?thesis by simp
    qed
  qed
  finally show ?case .
qed

lemma touched_from_record:
  assumes t: "touched_edges g =
          concat (map (\<lambda>(i, c). map (\<lambda>p. (commit_id (Suc i), F p)) (files c))
            (enumerate 0 (rev commits)))"
    and j: "j < length commits" and p: "p \<in> set (files (commits ! j))"
  shows "(commit_id (length commits - j), F p) \<in> set (touched_edges g)"
proof -
  let ?i = "length commits - Suc j"
  have i: "?i < length (rev commits)" using j by simp
  then have "(?i, rev commits ! ?i) \<in> set (enumerate 0 (rev commits))"
    by (simp add: in_set_enumerate_eq)
  then have "(?i, commits ! j) \<in> set (enumerate 0 (rev commits))"
    unfolding node_of_record(1) [OF j] .
  moreover have "(commit_id (Suc ?i), F p) \<in> set (map (\<lambda>p. (commit_id (Suc ?i), F p)) (files (commits ! j)))"
    using p by simp
  ultimately have "(commit_id (Suc ?i), F p) \<in> set (touched_edges g)"
    unfolding t by force
  then show ?thesis unfolding node_of_record(2) [OF j] .
qed

lemma touched_source:
  assumes t: "touched_edges g =
          concat (map (\<lambda>(i, c). map (\<lambda>p. (commit_id (Suc i), F p)) (files c))
            (enumerate 0 (rev commits)))"
    and e: "e \<in> set (touched_edges g)"
  shows "\<exists>j<length commits. fst e = commit_id (length commits - j)"
proof -
  from e obtain i c where ic: "(i, c) \<in> set (enumerate 0 (rev commits))"
    and fe: "fst e = commit_id (Suc i)"
    unfolding t by auto
  from ic have i: "i < length commits" by (simp add: in_set_enumerate_eq)
  let ?j = "length commits - Suc i"
  have "?j < length commits" using i by simp
  moreover have "length commits - ?j = Suc i" using i by simp
  ultimately show ?thesis using fe by metis
qed

subsection \<open>Rearranged dictionaries\<close>

lemma rearranged_dict:
  assumes r: "rearranges store" and d: "distinct (map fst d)"
  shows "same_entries d (store d)"
proof -
  have m: "mset (store d) = mset d" using r by (simp add: rearranges_def)
  then have "mset (map fst (store d)) = mset (map fst d)" by (metis mset_map)
  then have dk: "distinct (map fst (store d))" using d by (metis mset_eq_imp_distinct_iff)
  have "set (store d) = set d" using m by (rule mset_eq_setD)
  then have "map_of (store d) = map_of d" using dk d by (simp add: map_of_inject_set)
  moreover have "length (store d) = length d" using m by (rule mset_eq_length)
  ultimately show ?thesis using d dk by (simp add: same_entries_def)
qed

lemma same_entries_trans:
  "same_entries a b \<Longrightarrow> same_entries b c \<Longrightarrow> same_entries a c"
  by (simp add: same_entries_def)

lemma same_entries_Nil: "same_entries [] []"
  by (simp add: same_entries_def)

lemma length_dict_set:
  "length (dict_set d k v) = (if k \<in> fst ` set d then length d else Suc (length d))"
  unfolding dict_set_def by (induction d) auto

lemma same_entries_set:
  assumes r: "rearranges store" and s: "same_entries d d'"
  shows "same_entries (dict_set d k v) (store (dict_set d' k v))"
proof -
  have dom: "(k \<in> fst ` set d') = (k \<in> fst ` set d)"
    using s by (metis same_entries_def dom_map_of_conv_image_fst)
  have 1: "same_entries (dict_set d k v) (dict_set d' k v)"
    using s dom by (simp add: same_entries_def length_dict_set) (simp add: dict_set_def update_conv' distinct_update)
  then have "distinct (map fst (dict_set d' k v))" by (simp add: same_entries_def)
  with r have "same_entries (dict_set d' k v) (store (dict_set d' k v))" by (rule rearranged_dict)
  with 1 show ?thesis by (rule same_entries_trans)
qed

lemma same_entries_has: "same_entries d d' \<Longrightarrow> dict_has d' k = dict_has d k"
  by (simp add: same_entries_def dict_has_def)

lemma same_entries_get: "same_entries d d' \<Longrightarrow> dict_get d' k = dict_get d k"
  by (simp add: same_entries_def dict_get_def)

lemma dict_get_set: "dict_get (dict_set d k v) k = Inr v"
  by (simp add: dict_get_def map_of_dict_set)

lemma add_files_stored_eq:
  assumes r: "rearranges store" and s: "same_entries fd fd'"
  shows "\<exists>g1 fd1 fd1'. add_files cid fps (g, fd) = Inr (g1, fd1)
      \<and> add_files_stored store cid fps (g, fd') = Inr (g1, fd1') \<and> same_entries fd1 fd1'"
  using s
proof (induction fps arbitrary: g fd fd')
  case Nil
  then show ?case by simp
next
  case (Cons p ps)
  note s = Cons.prems
  have has: "dict_has fd' p = dict_has fd p" using s by (rule same_entries_has)
  show ?case
  proof (cases "dict_has fd p")
    case True
    then obtain v where v: "dict_get fd p = Inr v"
      by (auto simp: dict_has_def dict_get_def)
    then have v': "dict_get fd' p = Inr v" using same_entries_get [OF s] by simp
    from Cons.IH [OF s, of "g @ [TouchedEdge cid v]"]
    obtain g1 fd1 fd1' where
      a: "add_files cid ps (g @ [TouchedEdge cid v], fd) = Inr (g1, fd1)"
      and b: "add_files_stored store cid ps (g @ [TouchedEdge cid v], fd') = Inr (g1, fd1')"
      and c: "same_entries fd1 fd1'" by blast
    have "add_files cid (p # ps) (g, fd) = Inr (g1, fd1)" using True v a by simp
    moreover have "add_files_stored store cid (p # ps) (g, fd') = Inr (g1, fd1')"
      using True has v' b by simp
    ultimately show ?thesis using c by blast
  next
    case False
    let ?i = "file_id (length fd + 1)"
    let ?fd2 = "dict_set fd p ?i"
    let ?fd2' = "store (dict_set fd' p ?i)"
    let ?g2 = "(g @ [FileNode p ?i]) @ [TouchedEdge cid ?i]"
    have len: "length fd' = length fd" using s by (simp add: same_entries_def)
    have s2: "same_entries ?fd2 ?fd2'" using r s by (rule same_entries_set)
    have get: "dict_get ?fd2 p = Inr ?i" by (rule dict_get_set)
    have get': "dict_get ?fd2' p = Inr ?i" using same_entries_get [OF s2] get by simp
    from Cons.IH [OF s2, of ?g2]
    obtain g1 fd1 fd1' where
      a: "add_files cid ps (?g2, ?fd2) = Inr (g1, fd1)"
      and b: "add_files_stored store cid ps (?g2, ?fd2') = Inr (g1, fd1')"
      and c: "same_entries fd1 fd1'" by blast
    have "add_files cid (p # ps) (g, fd) = Inr (g1, fd1)" using False get a by simp
    moreover have "add_files_stored store cid (p # ps) (g, fd') = Inr (g1, fd1')"
      using False has get' b by (simp add: len)
    ultimately show ?thesis using c by blast
  qed
qed

lemma add_commits_stored_eq:
  assumes r: "rearranges store" and sc: "same_entries cd cd'" and sf: "same_entries fd fd'"
  shows "\<exists>g1 cd1 fd1 cd1' fd1'. add_commits idx cs (g, cd, fd) = Inr (g1, cd1, fd1)
      \<and> add_commits_stored store idx cs (g, cd', fd') = Inr (g1, cd1', fd1')
      \<and> same_entries cd1 cd1' \<and> same_entries fd1 fd1'"
  using sc sf
proof (induction cs arbitrary: idx g cd cd' fd fd')
  case Nil
  then show ?case by simp
next
  case (Cons c cs)
  let ?cid = "commit_id (Suc idx)"
  let ?g1 = "g @ [CommitNode (message c) ?cid]"
  from add_files_stored_eq [OF r Cons.prems(2), of ?cid "files c" ?g1]
  obtain g2 fd2 fd2' where
    f: "add_files ?cid (files c) (?g1, fd) = Inr (g2, fd2)"
    and f': "add_files_stored store ?cid (files c) (?g1, fd') = Inr (g2, fd2')"
    and s2: "same_entries fd2 fd2'" by blast
  have sc2: "same_entries (dict_set cd (hash c) ?cid) (store (dict_set cd' (hash c) ?cid))"
    using r Cons.prems(1) by (rule same_entries_set)
  from Cons.IH [OF sc2 s2, of "Suc idx" g2]
  obtain g1 cd1 fd1 cd1' fd1' where
    a: "add_commits (Suc idx) cs (g2, dict_set cd (hash c) ?cid, fd2) = Inr (g1, cd1, fd1)"
    and b: "add_commits_stored store (Suc idx) cs (g2, store (dict_set cd' (hash c) ?cid), fd2') =
        Inr (g1, cd1', fd1')"
    and c: "same_entries cd1 cd1'" "same_entries fd1 fd1'" by blast
  have "add_commits idx (c # cs) (g, cd, fd) = Inr (g1, cd1, fd1)" using f a by simp
  moreover have "add_commits_stored store idx (c # cs) (g, cd', fd') = Inr (g1, cd1', fd1')"
    using f' b by simp
  ultimately show ?case using c by blast
qed

lemma add_derives_lookup:
  "map_of cd' = map_of cd \<Longrightarrow> add_derives cd' cs g = add_derives cd cs g"
  by (induction cs arbitrary: g) (simp_all add: dict_get_def add_parents_spec split: option.splits)

lemma build_stored_eq:
  assumes r: "rearranges store"
  shows "\<exists>g1 cd fd cd' fd'. node_pass commits = Inr (g1, cd, fd)
      \<and> node_pass_stored store commits = Inr (g1, cd', fd')
      \<and> map_of cd' = map_of cd \<and> map_of fd' = map_of fd
      \<and> build_lines_stored store commits = build_lines commits
      \<and> build_graph_stored store commits = build_graph commits"
proof -
  from add_commits_stored_eq [OF r same_entries_Nil same_entries_Nil, of 0 "rev commits" preamble]
  obtain g1 cd fd cd' fd' where
    a: "add_commits 0 (rev commits) (preamble, [], []) = Inr (g1, cd, fd)"
    and b: "add_commits_stored store 0 (rev commits) (preamble, [], []) = Inr (g1, cd', fd')"
    and c: "same_entries cd cd'" and f: "same_entries fd fd'" by blast
  have mc: "map_of cd' = map_of cd" using c by (simp add: same_entries_def)
  have mf: "map_of fd' = map_of fd" using f by (simp add: same_entries_def)
  have np: "node_pass commits = Inr (g1, cd, fd)" using a by (simp add: node_pass_def)
  have np': "node_pass_stored store commits = Inr (g1, cd', fd')"
    using b by (simp add: node_pass_stored_def)
  have bl: "build_lines_stored store commits = build_lines commits"
    unfolding build_lines_stored_def build_lines_def np np'
    by (simp add: add_derives_lookup [OF mc])
  have bg: "build_graph_stored store commits = build_graph commits"
    unfolding build_graph_stored_def build_graph_def bl ..
  show ?thesis using np np' mc mf bl bg by blast
qed

subsection \<open>Commit nodes\<close>

text \<open>
  C5. For every commit sequence the builder returns a graph with exactly one commit node
  declaration per record: their messages are those of the records, oldest first, and
  their identifiers are \<open>Commit1\<close>, ..., \<open>Commitn\<close>, all different. Records with the
  same hash are not merged.
\<close>

theorem commit_node_per_record:
  "\<exists>g. build_lines commits = Inr g
     \<and> length (commit_nodes g) = length commits
     \<and> map fst (commit_nodes g) = map message (rev commits)
     \<and> map snd (commit_nodes g) = map commit_id [1..<Suc (length commits)]
     \<and> distinct (map snd (commit_nodes g))"
proof -
  from graph_spec [of commits]
  obtain g where b: "build_lines commits = Inr g"
    and c: "commit_nodes g = map (\<lambda>(i, c). (message c, commit_id (Suc i))) (enumerate 0 (rev commits))"
    by blast
  have 1: "length (commit_nodes g) = length commits" unfolding c by simp
  have 2: "map fst (commit_nodes g) = map message (rev commits)"
    unfolding c by (rule proj_fst_enumerate)
  have "map snd (commit_nodes g) = map (\<lambda>i. commit_id (Suc i)) [0..<0 + length (rev commits)]"
    unfolding c by (rule proj_snd_enumerate)
  also have "\<dots> = map commit_id (map Suc [0..<length commits])" by simp
  also have "\<dots> = map commit_id [1..<Suc (length commits)]" by (simp only: map_Suc_upt One_nat_def)
  finally have 3: "map snd (commit_nodes g) = map commit_id [1..<Suc (length commits)]" .
  have 4: "distinct (map snd (commit_nodes g))"
    unfolding 3 by (simp add: distinct_map inj_on_def del: upt_Suc) (blast dest: commit_id_inj)
  show ?thesis using b 1 2 3 4 by blast
qed

text \<open>C5 at two records with the same hash: two declarations.\<close>

theorem commit_node_per_record_witness:
  "\<exists>g. build_lines dup_commits = Inr g
     \<and> commit_nodes g = [(''old'', ''Commit1''), (''new'', ''Commit2'')]"
proof -
  from commit_node_per_record [of dup_commits]
  obtain g where b: "build_lines dup_commits = Inr g"
    and m: "map fst (commit_nodes g) = map message (rev dup_commits)"
    and i: "map snd (commit_nodes g) = map commit_id [1..<Suc (length dup_commits)]"
    by blast
  have ids: "map commit_id [1..<Suc (length dup_commits)] = [''Commit1'', ''Commit2'']"
    by code_simp
  have "commit_nodes g = zip (map fst (commit_nodes g)) (map snd (commit_nodes g))"
    by (simp add: zip_map_fst_snd)
  also have "\<dots> = [(''old'', ''Commit1''), (''new'', ''Commit2'')]"
    unfolding m i ids by (simp add: dup_commits_def)
  finally show ?thesis using b by blast
qed

subsection \<open>Derives edges\<close>

text \<open>
  C3. For every commit sequence the builder returns a graph with these lines. Every
  record has its commit node declaration (the record at input position \<open>j\<close> is
  \<open>Commit(n-j)\<close>) and a touched edge from that node to the node of each of its files,
  whatever its parents are: the first loop is the same as for the sequence with all
  parents removed. For a record \<open>c\<close> and a hash \<open>p\<close> of its parents list there is a
  derives edge from the node of \<open>p\<close> to the node of \<open>c\<close> if and only if \<open>p\<close> is the hash
  of a record of the sequence; the node of a hash is the node \<open>commit_defs\<close> holds for
  it, which is the record's own node when no earlier record of the input has the same
  hash. Every derives edge is such an edge, in the order of the second loop, and their
  number is the number of known parent entries: an unknown parent gives no edge and no
  error.
\<close>

theorem derives_edge_iff_parent_known:
  "\<exists>g1 cd fd g. node_pass commits = Inr (g1, cd, fd) \<and> build_lines commits = Inr g
     \<and> dom (map_of cd) = hash ` set commits
     \<and> (\<forall>h\<in>hash ` set commits. map_of cd h = Some (node_of commits h))
     \<and> commit_nodes g = map (\<lambda>(i, c). (message c, commit_id (Suc i))) (enumerate 0 (rev commits))
     \<and> (\<forall>j<length commits. commit_nodes g ! (length commits - Suc j) =
           (message (commits ! j), commit_id (length commits - j)))
     \<and> (\<forall>j<length commits. first_index (hash (commits ! j)) commits = j \<longrightarrow>
           node_of commits (hash (commits ! j)) = commit_id (length commits - j))
     \<and> file_nodes g = map (\<lambda>p. (p, file_of commits p)) (first_occ (concat (map files (rev commits))))
     \<and> touched_edges g =
          concat (map (\<lambda>(i, c). map (\<lambda>p. (commit_id (Suc i), file_of commits p)) (files c))
            (enumerate 0 (rev commits)))
     \<and> (\<forall>j<length commits. \<forall>p\<in>set (files (commits ! j)).
           (commit_id (length commits - j), file_of commits p) \<in> set (touched_edges g))
     \<and> derives_edges g =
          concat (map (\<lambda>c. map (\<lambda>p. (node_of commits p, node_of commits (hash c)))
                            (filter (\<lambda>p. p \<in> hash ` set commits) (parents c))) (rev commits))
     \<and> (\<forall>c\<in>set commits. \<forall>p\<in>set (parents c).
           (\<exists>pid cid. map_of cd p = Some pid \<and> map_of cd (hash c) = Some cid
                \<and> (pid, cid) \<in> set (derives_edges g))
           = (p \<in> hash ` set commits))
     \<and> (\<forall>e\<in>set (derives_edges g). \<exists>c\<in>set commits. \<exists>p\<in>set (parents c).
           p \<in> hash ` set commits \<and> e = (node_of commits p, node_of commits (hash c)))
     \<and> length (derives_edges g) =
         (\<Sum>c\<leftarrow>commits. length (filter (\<lambda>p. p \<in> hash ` set commits) (parents c)))
     \<and> node_pass (map (\<lambda>c. c\<lparr>parents := []\<rparr>) commits) = Inr (g1, cd, fd)"
proof -
  from graph_closed_form [of commits]
  obtain g1 cd fd g where np: "node_pass commits = Inr (g1, cd, fd)"
    and b: "build_lines commits = Inr g"
    and cd: "\<forall>h. map_of cd h = (if h \<in> hash ` set commits then Some (node_of commits h) else None)"
    and cn: "commit_nodes g = map (\<lambda>(i, c). (message c, commit_id (Suc i))) (enumerate 0 (rev commits))"
    and fn: "file_nodes g = map (\<lambda>p. (p, file_of commits p)) (first_occ (concat (map files (rev commits))))"
    and t: "touched_edges g =
          concat (map (\<lambda>(i, c). map (\<lambda>p. (commit_id (Suc i), file_of commits p)) (files c))
            (enumerate 0 (rev commits)))"
    and d: "derives_edges g =
          concat (map (\<lambda>c. map (\<lambda>p. (node_of commits p, node_of commits (hash c)))
                            (filter (\<lambda>p. p \<in> hash ` set commits) (parents c))) (rev commits))"
    by blast
  have 1: "dom (map_of cd) = hash ` set commits"
    using cd by (auto simp: dom_def)
  have 2: "\<forall>h\<in>hash ` set commits. map_of cd h = Some (node_of commits h)"
    using cd by simp
  have 3: "\<forall>j<length commits. commit_nodes g ! (length commits - Suc j) =
           (message (commits ! j), commit_id (length commits - j))"
    using commit_nodes_nth [OF cn] by blast
  have 4: "\<forall>j<length commits. first_index (hash (commits ! j)) commits = j \<longrightarrow>
           node_of commits (hash (commits ! j)) = commit_id (length commits - j)"
    by (simp add: node_of_def)
  have 5: "\<forall>j<length commits. \<forall>p\<in>set (files (commits ! j)).
           (commit_id (length commits - j), file_of commits p) \<in> set (touched_edges g)"
    using touched_from_record [OF t] by blast
  have 6: "\<forall>c\<in>set commits. \<forall>p\<in>set (parents c).
           (\<exists>pid cid. map_of cd p = Some pid \<and> map_of cd (hash c) = Some cid
                \<and> (pid, cid) \<in> set (derives_edges g))
           = (p \<in> hash ` set commits)"
  proof (intro ballI iffI)
    fix c :: commit and p :: string
    assume "\<exists>pid cid. map_of cd p = Some pid \<and> map_of cd (hash c) = Some cid
                \<and> (pid, cid) \<in> set (derives_edges g)"
    then obtain pid where "map_of cd p = Some pid" by blast
    then show "p \<in> hash ` set commits" using cd by (metis option.distinct(1))
  next
    fix c :: commit and p :: string
    assume c: "c \<in> set commits" and p: "p \<in> set (parents c)" and k: "p \<in> hash ` set commits"
    have "map_of cd p = Some (node_of commits p)" using cd k by simp
    moreover have "map_of cd (hash c) = Some (node_of commits (hash c))" using cd c by simp
    moreover have "(node_of commits p, node_of commits (hash c)) \<in> set (derives_edges g)"
      unfolding d using c p k by auto
    ultimately show "\<exists>pid cid. map_of cd p = Some pid \<and> map_of cd (hash c) = Some cid
                \<and> (pid, cid) \<in> set (derives_edges g)" by blast
  qed
  have 7: "\<forall>e\<in>set (derives_edges g). \<exists>c\<in>set commits. \<exists>p\<in>set (parents c).
           p \<in> hash ` set commits \<and> e = (node_of commits p, node_of commits (hash c))"
    unfolding d by auto
  have "length (derives_edges g) =
      sum_list (rev (map (\<lambda>c. length (filter (\<lambda>p. p \<in> hash ` set commits) (parents c))) commits))"
    unfolding d by (simp add: length_concat rev_map comp_def)
  then have 8: "length (derives_edges g) =
         (\<Sum>c\<leftarrow>commits. length (filter (\<lambda>p. p \<in> hash ` set commits) (parents c)))"
    by (simp only: sum_list_rev)
  have 9: "node_pass (map (\<lambda>c. c\<lparr>parents := []\<rparr>) commits) = Inr (g1, cd, fd)"
    using np by (simp only: node_pass_parents_irrelevant)
  show ?thesis
    apply (rule exI [of _ g1], rule exI [of _ cd], rule exI [of _ fd], rule exI [of _ g])
    apply (intro conjI)
    apply (rule np, rule b, rule 1, rule 2, rule cn, rule 3, rule 4, rule fn, rule t, rule 5, rule d,
           rule 6, rule 7, rule 8, rule 9)
    done
qed

text \<open>
  C3 at a record with a known and an unknown parent: both records are declared, the
  three touched edges are there, and the one derives edge goes from the parent's node to
  the child's node.
\<close>

theorem derives_edge_iff_parent_known_witness:
  "(\<exists>c\<in>set known_unknown. \<exists>p\<in>set (parents c). p \<in> hash ` set known_unknown)
   \<and> (\<exists>c\<in>set known_unknown. \<exists>p\<in>set (parents c). p \<notin> hash ` set known_unknown)
   \<and> (\<exists>g. build_lines known_unknown = Inr g
        \<and> commit_nodes g = [(''root'', ''Commit1''), (''child'', ''Commit2'')]
        \<and> file_nodes g = [(''f1'', ''File1''), (''f2'', ''File2'')]
        \<and> touched_edges g = [(''Commit1'', ''File1''), (''Commit2'', ''File2''), (''Commit2'', ''File1'')]
        \<and> derives_edges g = [(''Commit1'', ''Commit2'')])"
proof -
  from derives_edge_iff_parent_known [of known_unknown]
  obtain g1 cd fd g where all: "node_pass known_unknown = Inr (g1, cd, fd) \<and> build_lines known_unknown = Inr g
     \<and> dom (map_of cd) = hash ` set known_unknown
     \<and> (\<forall>h\<in>hash ` set known_unknown. map_of cd h = Some (node_of known_unknown h))
     \<and> commit_nodes g = map (\<lambda>(i, c). (message c, commit_id (Suc i))) (enumerate 0 (rev known_unknown))
     \<and> (\<forall>j<length known_unknown. commit_nodes g ! (length known_unknown - Suc j) =
           (message (known_unknown ! j), commit_id (length known_unknown - j)))
     \<and> (\<forall>j<length known_unknown. first_index (hash (known_unknown ! j)) known_unknown = j \<longrightarrow>
           node_of known_unknown (hash (known_unknown ! j)) = commit_id (length known_unknown - j))
     \<and> file_nodes g = map (\<lambda>p. (p, file_of known_unknown p)) (first_occ (concat (map files (rev known_unknown))))
     \<and> touched_edges g =
          concat (map (\<lambda>(i, c). map (\<lambda>p. (commit_id (Suc i), file_of known_unknown p)) (files c))
            (enumerate 0 (rev known_unknown)))
     \<and> (\<forall>j<length known_unknown. \<forall>p\<in>set (files (known_unknown ! j)).
           (commit_id (length known_unknown - j), file_of known_unknown p) \<in> set (touched_edges g))
     \<and> derives_edges g =
          concat (map (\<lambda>c. map (\<lambda>p. (node_of known_unknown p, node_of known_unknown (hash c)))
                            (filter (\<lambda>p. p \<in> hash ` set known_unknown) (parents c))) (rev known_unknown))
     \<and> (\<forall>c\<in>set known_unknown. \<forall>p\<in>set (parents c).
           (\<exists>pid cid. map_of cd p = Some pid \<and> map_of cd (hash c) = Some cid
                \<and> (pid, cid) \<in> set (derives_edges g))
           = (p \<in> hash ` set known_unknown))
     \<and> (\<forall>e\<in>set (derives_edges g). \<exists>c\<in>set known_unknown. \<exists>p\<in>set (parents c).
           p \<in> hash ` set known_unknown \<and> e = (node_of known_unknown p, node_of known_unknown (hash c)))
     \<and> length (derives_edges g) =
         (\<Sum>c\<leftarrow>known_unknown. length (filter (\<lambda>p. p \<in> hash ` set known_unknown) (parents c)))
     \<and> node_pass (map (\<lambda>c. c\<lparr>parents := []\<rparr>) known_unknown) = Inr (g1, cd, fd)"
    by (elim exE) (erule that)
  note b = all [THEN conjunct2, THEN conjunct1]
  note cn = all [THEN conjunct2, THEN conjunct2, THEN conjunct2, THEN conjunct2, THEN conjunct1]
  note fn = all [THEN conjunct2, THEN conjunct2, THEN conjunct2, THEN conjunct2, THEN conjunct2, THEN conjunct2, THEN conjunct2, THEN conjunct1]
  note t = all [THEN conjunct2, THEN conjunct2, THEN conjunct2, THEN conjunct2, THEN conjunct2, THEN conjunct2, THEN conjunct2, THEN conjunct2, THEN conjunct1]
  note d = all [THEN conjunct2, THEN conjunct2, THEN conjunct2, THEN conjunct2, THEN conjunct2, THEN conjunct2, THEN conjunct2, THEN conjunct2, THEN conjunct2, THEN conjunct2, THEN conjunct1]
  have e1: "map (\<lambda>(i, c). (message c, commit_id (Suc i))) (enumerate 0 (rev known_unknown)) =
      [(''root'', ''Commit1''), (''child'', ''Commit2'')]" by code_simp
  have e2: "map (\<lambda>p. (p, file_of known_unknown p)) (first_occ (concat (map files (rev known_unknown)))) =
      [(''f1'', ''File1''), (''f2'', ''File2'')]" by code_simp
  have e3: "concat (map (\<lambda>(i, c). map (\<lambda>p. (commit_id (Suc i), file_of known_unknown p)) (files c))
            (enumerate 0 (rev known_unknown))) =
      [(''Commit1'', ''File1''), (''Commit2'', ''File2''), (''Commit2'', ''File1'')]" by code_simp
  have e4: "concat (map (\<lambda>c. map (\<lambda>p. (node_of known_unknown p, node_of known_unknown (hash c)))
                            (filter (\<lambda>p. p \<in> hash ` set known_unknown) (parents c))) (rev known_unknown)) =
      [(''Commit1'', ''Commit2'')]" by code_simp
  have 3: "\<exists>g. build_lines known_unknown = Inr g
        \<and> commit_nodes g = [(''root'', ''Commit1''), (''child'', ''Commit2'')]
        \<and> file_nodes g = [(''f1'', ''File1''), (''f2'', ''File2'')]
        \<and> touched_edges g = [(''Commit1'', ''File1''), (''Commit2'', ''File2''), (''Commit2'', ''File1'')]
        \<and> derives_edges g = [(''Commit1'', ''Commit2'')]"
    using b cn [unfolded e1] fn [unfolded e2] t [unfolded e3] d [unfolded e4] by (intro exI conjI)
  have 1: "\<exists>c\<in>set known_unknown. \<exists>p\<in>set (parents c). p \<in> hash ` set known_unknown"
    by (simp add: known_unknown_def)
  have 2: "\<exists>c\<in>set known_unknown. \<exists>p\<in>set (parents c). p \<notin> hash ` set known_unknown"
    by (simp add: known_unknown_def)
  show ?thesis using 1 2 3 by (intro conjI)
qed

subsection \<open>File nodes and touched edges\<close>

text \<open>
  C4, as stated (a path in the file lists of N commits gets exactly N touched edges):
  one record that lists \<open>f\<close> twice gives one file node and two touched edges to it.
\<close>

theorem touched_edges_per_commit_counterexample:
  "length (filter (\<lambda>c. ''f'' \<in> set (files c)) twice_listed) = 1
   \<and> map_sum id file_nodes (build_lines twice_listed) = Inr [(''f'', ''File1'')]
   \<and> map_sum id touched_edges (build_lines twice_listed) =
       Inr [(''Commit1'', ''File1''), (''Commit1'', ''File1'')]"
  by code_simp

text \<open>
  C4, amended. A path \<open>p\<close> that occurs in some file list gets exactly one file node
  declaration, whose identifier \<open>fid\<close> no other path gets. The record at input position
  \<open>j\<close>, whose node is \<open>Commit(n-j)\<close>, has as many touched edges from its node to \<open>fid\<close>
  as its file list has occurrences of \<open>p\<close>, and every touched edge starts at the node of
  a record. So the number of touched edges to \<open>fid\<close> is the number of occurrences of \<open>p\<close>
  in the file lists; this is the number of records that list \<open>p\<close> when no record lists a
  path twice. The identifier is \<open>File(k+1)\<close> where \<open>k\<close> is the position of \<open>p\<close> among the
  distinct paths in first-seen order, oldest record first.
\<close>

theorem file_node_once_edge_per_occurrence:
  assumes "p \<in> set (concat (map files commits))"
  shows "\<exists>g1 cd fd g fid k. node_pass commits = Inr (g1, cd, fd) \<and> build_lines commits = Inr g
     \<and> map_of fd p = Some fid
     \<and> filter (\<lambda>n. fst n = p) (file_nodes g) = [(p, fid)]
     \<and> filter (\<lambda>n. snd n = fid) (file_nodes g) = [(p, fid)]
     \<and> (\<forall>j<length commits. commit_nodes g ! (length commits - Suc j) =
           (message (commits ! j), commit_id (length commits - j)))
     \<and> (\<forall>j<length commits.
           length (filter (\<lambda>e. e = (commit_id (length commits - j), fid)) (touched_edges g)) =
           count_list (files (commits ! j)) p)
     \<and> (\<forall>e\<in>set (touched_edges g). \<exists>j<length commits. fst e = commit_id (length commits - j))
     \<and> length (filter (\<lambda>e. snd e = fid) (touched_edges g)) = (\<Sum>c\<leftarrow>commits. count_list (files c) p)
     \<and> ((\<forall>c\<in>set commits. distinct (files c)) \<longrightarrow>
          length (filter (\<lambda>e. snd e = fid) (touched_edges g)) =
          length (filter (\<lambda>c. p \<in> set (files c)) commits))
     \<and> k < length (first_occ (concat (map files (rev commits))))
     \<and> first_occ (concat (map files (rev commits))) ! k = p
     \<and> fid = file_id (Suc k)"
proof -
  let ?A = "concat (map files (rev commits))"
  let ?n = "length commits"
  from graph_spec [of commits]
  obtain g1 cd fd g where np: "node_pass commits = Inr (g1, cd, fd)"
    and b: "build_lines commits = Inr g"
    and n: "numbered fd ?A"
    and cn: "commit_nodes g = map (\<lambda>(i, c). (message c, commit_id (Suc i))) (enumerate 0 (rev commits))"
    and fn: "file_nodes g = fd"
    and t: "touched_edges g =
          concat (map (\<lambda>(i, c). map (\<lambda>p. (commit_id (Suc i), the (map_of fd p))) (files c))
            (enumerate 0 (rev commits)))"
    by blast
  have pA: "p \<in> set ?A" using assms by auto
  from numbered_entry [OF n pA]
  obtain k where k: "k < length (first_occ ?A)" and pk: "first_occ ?A ! k = p"
    and m: "map_of fd p = Some (file_id (Suc k))" and e: "(p, file_id (Suc k)) \<in> set fd"
    by blast
  let ?fid = "file_id (Suc k)"
  have dk: "distinct (map fst fd)" and keys: "set (map fst fd) = set ?A"
    using numbered_keys [OF n] by simp_all
  have dv: "distinct (map snd fd)" using n by (rule numbered_values)
  have 1: "filter (\<lambda>n. fst n = p) (file_nodes g) = [(p, ?fid)]"
    unfolding fn using dk e by (rule filter_key_unique)
  have 2: "filter (\<lambda>n. snd n = ?fid) (file_nodes g) = [(p, ?fid)]"
    unfolding fn using dv e by (rule filter_value_unique)
  have sub: "\<forall>c\<in>set (rev commits). set (files c) \<subseteq> fst ` set fd"
    using keys by auto
  have "length (filter (\<lambda>e. snd e = ?fid) (touched_edges g)) =
        (\<Sum>c\<leftarrow>rev commits. count_list (files c) p)"
    unfolding t using dk dv e sub by (rule touched_count)
  also have "\<dots> = (\<Sum>c\<leftarrow>commits. count_list (files c) p)"
    by (simp add: rev_map [symmetric])
  finally have 3: "length (filter (\<lambda>e. snd e = ?fid) (touched_edges g)) =
        (\<Sum>c\<leftarrow>commits. count_list (files c) p)" .
  have 4: "(\<forall>c\<in>set commits. distinct (files c)) \<longrightarrow>
          length (filter (\<lambda>e. snd e = ?fid) (touched_edges g)) =
          length (filter (\<lambda>c. p \<in> set (files c)) commits)"
    unfolding 3 by (simp add: count_when_distinct)
  have 5: "\<forall>j<?n. commit_nodes g ! (?n - Suc j) = (message (commits ! j), commit_id (?n - j))"
    using commit_nodes_nth [OF cn] by blast
  have key: "\<forall>c\<in>set (rev commits). \<forall>q\<in>set (files c). (the (map_of fd q) = ?fid) = (q = p)"
  proof (intro ballI)
    fix c q assume "c \<in> set (rev commits)" and "q \<in> set (files c)"
    then have "q \<in> fst ` set fd" using sub by blast
    with dk dv e show "(the (map_of fd q) = ?fid) = (q = p)" by (rule lookup_eq_iff)
  qed
  have inj: "\<And>a b. commit_id (Suc a) = commit_id (Suc b) \<Longrightarrow> a = b"
    using commit_id_inj by blast
  have 6: "\<forall>j<?n. length (filter (\<lambda>e. e = (commit_id (?n - j), ?fid)) (touched_edges g)) =
           count_list (files (commits ! j)) p"
  proof (intro allI impI)
    fix j assume j: "j < ?n"
    let ?i = "?n - Suc j"
    have "length (filter (\<lambda>e. e = (commit_id (Suc ?i), ?fid)) (touched_edges g)) =
        (if 0 \<le> ?i \<and> ?i < 0 + length (rev commits)
         then count_list (files (rev commits ! (?i - 0))) p else 0)"
      unfolding t using inj key by (rule block_count)
    also have "\<dots> = count_list (files (rev commits ! ?i)) p" using j by simp
    finally show "length (filter (\<lambda>e. e = (commit_id (?n - j), ?fid)) (touched_edges g)) =
           count_list (files (commits ! j)) p"
      unfolding node_of_record [OF j] .
  qed
  have 7: "\<forall>e\<in>set (touched_edges g). \<exists>j<?n. fst e = commit_id (?n - j)"
    using touched_source [OF t] by blast
  show ?thesis
    apply (rule exI [of _ g1], rule exI [of _ cd], rule exI [of _ fd], rule exI [of _ g],
           rule exI [of _ ?fid], rule exI [of _ k])
    apply (intro conjI)
    apply (rule np, rule b, rule m, rule 1, rule 2, rule 5, rule 6, rule 7, rule 3, rule 4,
           rule k, rule pk, rule refl)
    done
qed

text \<open>
  C4 at the records of the scenario, where \<open>file1.txt\<close> is listed once by each of the
  two records (one edge from each node), and at two records of which the first lists
  \<open>f\<close> twice (two edges from its node, one from the other).
\<close>

theorem file_node_once_edge_per_occurrence_witness:
  "''file1.txt'' \<in> set (concat (map files scenario_commits))
   \<and> list_all (\<lambda>c. distinct (files c)) scenario_commits
   \<and> (\<exists>g fid. build_lines scenario_commits = Inr g
         \<and> filter (\<lambda>n. fst n = ''file1.txt'') (file_nodes g) = [(''file1.txt'', fid)]
         \<and> length (filter (\<lambda>e. snd e = fid) (touched_edges g)) = 2
         \<and> length (filter (\<lambda>e. e = (commit_id 2, fid)) (touched_edges g)) = 1
         \<and> length (filter (\<lambda>e. e = (commit_id 1, fid)) (touched_edges g)) = 1)
   \<and> ''f'' \<in> set (concat (map files dup_commits))
   \<and> (\<exists>g fid. build_lines dup_commits = Inr g
         \<and> filter (\<lambda>n. fst n = ''f'') (file_nodes g) = [(''f'', fid)]
         \<and> length (filter (\<lambda>e. snd e = fid) (touched_edges g)) = 3
         \<and> length (filter (\<lambda>e. e = (commit_id 2, fid)) (touched_edges g)) = 2
         \<and> length (filter (\<lambda>e. e = (commit_id 1, fid)) (touched_edges g)) = 1)"
proof -
  have h: "''file1.txt'' \<in> set (concat (map files scenario_commits))"
    by (simp add: scenario_commits_def)
  have dl: "list_all (\<lambda>c. distinct (files c)) scenario_commits"
    by (simp add: scenario_commits_def)
  then have ds: "\<forall>c\<in>set scenario_commits. distinct (files c)" by (simp add: list_all_iff)
  have len: "length scenario_commits = 2" by (simp add: scenario_commits_def)
  from file_node_once_edge_per_occurrence [OF h]
  obtain g1 cd fd g fid k where all: "node_pass scenario_commits = Inr (g1, cd, fd) \<and> build_lines scenario_commits = Inr g
     \<and> map_of fd ''file1.txt'' = Some fid
     \<and> filter (\<lambda>n. fst n = ''file1.txt'') (file_nodes g) = [(''file1.txt'', fid)]
     \<and> filter (\<lambda>n. snd n = fid) (file_nodes g) = [(''file1.txt'', fid)]
     \<and> (\<forall>j<length scenario_commits. commit_nodes g ! (length scenario_commits - Suc j) =
           (message (scenario_commits ! j), commit_id (length scenario_commits - j)))
     \<and> (\<forall>j<length scenario_commits.
           length (filter (\<lambda>e. e = (commit_id (length scenario_commits - j), fid)) (touched_edges g)) =
           count_list (files (scenario_commits ! j)) ''file1.txt'')
     \<and> (\<forall>e\<in>set (touched_edges g). \<exists>j<length scenario_commits. fst e = commit_id (length scenario_commits - j))
     \<and> length (filter (\<lambda>e. snd e = fid) (touched_edges g)) = (\<Sum>c\<leftarrow>scenario_commits. count_list (files c) ''file1.txt'')
     \<and> ((\<forall>c\<in>set scenario_commits. distinct (files c)) \<longrightarrow>
          length (filter (\<lambda>e. snd e = fid) (touched_edges g)) =
          length (filter (\<lambda>c. ''file1.txt'' \<in> set (files c)) scenario_commits))
     \<and> k < length (first_occ (concat (map files (rev scenario_commits))))
     \<and> first_occ (concat (map files (rev scenario_commits))) ! k = ''file1.txt''
     \<and> fid = file_id (Suc k)"
    by (elim exE) (erule that)
  note b = all [THEN conjunct2, THEN conjunct1]
  note f = all [THEN conjunct2, THEN conjunct2, THEN conjunct2, THEN conjunct1]
  note per = all [THEN conjunct2, THEN conjunct2, THEN conjunct2, THEN conjunct2, THEN conjunct2, THEN conjunct2, THEN conjunct1]
  note imp = all [THEN conjunct2, THEN conjunct2, THEN conjunct2, THEN conjunct2, THEN conjunct2, THEN conjunct2, THEN conjunct2, THEN conjunct2, THEN conjunct2, THEN conjunct1]
  from imp ds have "length (filter (\<lambda>e. snd e = fid) (touched_edges g)) =
      length (filter (\<lambda>c. ''file1.txt'' \<in> set (files c)) scenario_commits)" by (rule mp)
  then have t2: "length (filter (\<lambda>e. snd e = fid) (touched_edges g)) = 2"
    by (simp add: scenario_commits_def)
  from per have "0 < length scenario_commits \<longrightarrow>
      length (filter (\<lambda>e. e = (commit_id (length scenario_commits - 0), fid)) (touched_edges g)) =
      count_list (files (scenario_commits ! 0)) ''file1.txt''" by (rule spec)
  then have p0: "length (filter (\<lambda>e. e = (commit_id 2, fid)) (touched_edges g)) = 1"
    unfolding len by (simp add: scenario_commits_def)
  from per have "1 < length scenario_commits \<longrightarrow>
      length (filter (\<lambda>e. e = (commit_id (length scenario_commits - 1), fid)) (touched_edges g)) =
      count_list (files (scenario_commits ! 1)) ''file1.txt''" by (rule spec)
  then have p1: "length (filter (\<lambda>e. e = (commit_id 1, fid)) (touched_edges g)) = 1"
    unfolding len by (simp add: scenario_commits_def)
  have A: "\<exists>g fid. build_lines scenario_commits = Inr g
         \<and> filter (\<lambda>n. fst n = ''file1.txt'') (file_nodes g) = [(''file1.txt'', fid)]
         \<and> length (filter (\<lambda>e. snd e = fid) (touched_edges g)) = 2
         \<and> length (filter (\<lambda>e. e = (commit_id 2, fid)) (touched_edges g)) = 1
         \<and> length (filter (\<lambda>e. e = (commit_id 1, fid)) (touched_edges g)) = 1"
    using b f t2 p0 p1 by (intro exI conjI)
  have h': "''f'' \<in> set (concat (map files dup_commits))" by (simp add: dup_commits_def)
  have len': "length dup_commits = 2" by (simp add: dup_commits_def)
  from file_node_once_edge_per_occurrence [OF h']
  obtain g1' cd' fd' g' fid' k' where all': "node_pass dup_commits = Inr (g1', cd', fd') \<and> build_lines dup_commits = Inr g'
     \<and> map_of fd' ''f'' = Some fid'
     \<and> filter (\<lambda>n. fst n = ''f'') (file_nodes g') = [(''f'', fid')]
     \<and> filter (\<lambda>n. snd n = fid') (file_nodes g') = [(''f'', fid')]
     \<and> (\<forall>j<length dup_commits. commit_nodes g' ! (length dup_commits - Suc j) =
           (message (dup_commits ! j), commit_id (length dup_commits - j)))
     \<and> (\<forall>j<length dup_commits.
           length (filter (\<lambda>e. e = (commit_id (length dup_commits - j), fid')) (touched_edges g')) =
           count_list (files (dup_commits ! j)) ''f'')
     \<and> (\<forall>e\<in>set (touched_edges g'). \<exists>j<length dup_commits. fst e = commit_id (length dup_commits - j))
     \<and> length (filter (\<lambda>e. snd e = fid') (touched_edges g')) = (\<Sum>c\<leftarrow>dup_commits. count_list (files c) ''f'')
     \<and> ((\<forall>c\<in>set dup_commits. distinct (files c)) \<longrightarrow>
          length (filter (\<lambda>e. snd e = fid') (touched_edges g')) =
          length (filter (\<lambda>c. ''f'' \<in> set (files c)) dup_commits))
     \<and> k' < length (first_occ (concat (map files (rev dup_commits))))
     \<and> first_occ (concat (map files (rev dup_commits))) ! k' = ''f''
     \<and> fid' = file_id (Suc k')"
    by (elim exE) (erule that)
  note b' = all' [THEN conjunct2, THEN conjunct1]
  note f' = all' [THEN conjunct2, THEN conjunct2, THEN conjunct2, THEN conjunct1]
  note per' = all' [THEN conjunct2, THEN conjunct2, THEN conjunct2, THEN conjunct2, THEN conjunct2, THEN conjunct2, THEN conjunct1]
  note tot' = all' [THEN conjunct2, THEN conjunct2, THEN conjunct2, THEN conjunct2, THEN conjunct2, THEN conjunct2, THEN conjunct2, THEN conjunct2, THEN conjunct1]
  have t3: "length (filter (\<lambda>e. snd e = fid') (touched_edges g')) = 3"
    unfolding tot' by (simp add: dup_commits_def)
  from per' have "0 < length dup_commits \<longrightarrow>
      length (filter (\<lambda>e. e = (commit_id (length dup_commits - 0), fid')) (touched_edges g')) =
      count_list (files (dup_commits ! 0)) ''f''" by (rule spec)
  then have q0: "length (filter (\<lambda>e. e = (commit_id 2, fid')) (touched_edges g')) = 2"
    unfolding len' by (simp add: dup_commits_def)
  from per' have "1 < length dup_commits \<longrightarrow>
      length (filter (\<lambda>e. e = (commit_id (length dup_commits - 1), fid')) (touched_edges g')) =
      count_list (files (dup_commits ! 1)) ''f''" by (rule spec)
  then have q1: "length (filter (\<lambda>e. e = (commit_id 1, fid')) (touched_edges g')) = 1"
    unfolding len' by (simp add: dup_commits_def)
  have B: "\<exists>g fid. build_lines dup_commits = Inr g
         \<and> filter (\<lambda>n. fst n = ''f'') (file_nodes g) = [(''f'', fid)]
         \<and> length (filter (\<lambda>e. snd e = fid) (touched_edges g)) = 3
         \<and> length (filter (\<lambda>e. e = (commit_id 2, fid)) (touched_edges g)) = 2
         \<and> length (filter (\<lambda>e. e = (commit_id 1, fid)) (touched_edges g)) = 1"
    using b' f' t3 q0 q1 by (intro exI conjI)
  show ?thesis using h dl A h' B by (intro conjI)
qed

subsection \<open>Duplicate hashes\<close>

text \<open>
  C10. The node of the record at position \<open>j\<close> of the input is \<open>Commit(n-j)\<close>. After
  the first loop \<open>commit_defs\<close> maps a hash to the node of the first record of the input
  that carries it (the one the oldest-first loop visits last). Both ends of every
  derives edge are such nodes, so the node of any other record with a duplicated hash is
  never an end of a derives edge.
\<close>

theorem duplicate_hash_resolves_to_first_record:
  "\<exists>g1 cd fd g. node_pass commits = Inr (g1, cd, fd) \<and> build_lines commits = Inr g
    \<and> (\<forall>j<length commits. commit_nodes g ! (length commits - Suc j) =
          (message (commits ! j), commit_id (length commits - j)))
    \<and> (\<forall>h\<in>hash ` set commits.
          map_of cd h = Some (commit_id (length commits - first_index h commits))
          \<and> first_index h commits < length commits
          \<and> hash (commits ! first_index h commits) = h
          \<and> (\<forall>i<first_index h commits. hash (commits ! i) \<noteq> h))
    \<and> (\<forall>e\<in>set (derives_edges g). \<exists>c\<in>set commits. \<exists>p\<in>set (parents c).
          p \<in> hash ` set commits
          \<and> e = (commit_id (length commits - first_index p commits),
                 commit_id (length commits - first_index (hash c) commits)))
    \<and> (\<forall>j<length commits. first_index (hash (commits ! j)) commits \<noteq> j \<longrightarrow>
          (\<forall>e\<in>set (derives_edges g).
             fst e \<noteq> commit_id (length commits - j) \<and> snd e \<noteq> commit_id (length commits - j)))"
proof -
  let ?n = "length commits"
  from graph_spec [of commits]
  obtain g1 cd fd g where np: "node_pass commits = Inr (g1, cd, fd)"
    and b: "build_lines commits = Inr g"
    and cd: "\<forall>h. map_of cd h = (if h \<in> hash ` set commits then Some (node_of commits h) else None)"
    and cn: "commit_nodes g = map (\<lambda>(i, c). (message c, commit_id (Suc i))) (enumerate 0 (rev commits))"
    and d: "derives_edges g =
          concat (map (\<lambda>c. map (\<lambda>p. (node_of commits p, node_of commits (hash c)))
                            (filter (\<lambda>p. p \<in> hash ` set commits) (parents c))) (rev commits))"
    by blast
  have 1: "\<forall>j<?n. commit_nodes g ! (?n - Suc j) = (message (commits ! j), commit_id (?n - j))"
  proof (intro allI impI)
    fix j assume j: "j < ?n"
    then have "rev commits ! (?n - Suc j) = commits ! j" by (simp add: rev_nth)
    moreover have "Suc (?n - Suc j) = ?n - j" using j by simp
    ultimately show "commit_nodes g ! (?n - Suc j) = (message (commits ! j), commit_id (?n - j))"
      unfolding cn using j by (simp add: nth_enumerate_eq)
  qed
  have 2: "\<forall>h\<in>hash ` set commits.
          map_of cd h = Some (commit_id (?n - first_index h commits))
          \<and> first_index h commits < ?n
          \<and> hash (commits ! first_index h commits) = h
          \<and> (\<forall>i<first_index h commits. hash (commits ! i) \<noteq> h)"
  proof
    fix h assume h: "h \<in> hash ` set commits"
    then have "map_of cd h = Some (commit_id (?n - first_index h commits))"
      using cd by (simp add: node_of_def)
    then show "map_of cd h = Some (commit_id (?n - first_index h commits))
          \<and> first_index h commits < ?n
          \<and> hash (commits ! first_index h commits) = h
          \<and> (\<forall>i<first_index h commits. hash (commits ! i) \<noteq> h)"
      using first_index_props [OF h] by simp
  qed
  have 3: "\<forall>e\<in>set (derives_edges g). \<exists>c\<in>set commits. \<exists>p\<in>set (parents c).
          p \<in> hash ` set commits
          \<and> e = (commit_id (?n - first_index p commits),
                 commit_id (?n - first_index (hash c) commits))"
    unfolding d by (auto simp: node_of_def)
  have 4: "\<forall>j<?n. first_index (hash (commits ! j)) commits \<noteq> j \<longrightarrow>
          (\<forall>e\<in>set (derives_edges g).
             fst e \<noteq> commit_id (?n - j) \<and> snd e \<noteq> commit_id (?n - j))"
  proof (intro allI impI ballI)
    fix j e
    assume j: "j < ?n" and nf: "first_index (hash (commits ! j)) commits \<noteq> j"
      and e: "e \<in> set (derives_edges g)"
    from 3 e obtain c p where c: "c \<in> set commits" and p: "p \<in> hash ` set commits"
      and ee: "e = (commit_id (?n - first_index p commits),
                 commit_id (?n - first_index (hash c) commits))"
      by blast
    have other: "first_index h commits \<noteq> j" if "h \<in> hash ` set commits" for h
      using first_index_nth [OF j] nf by blast
    have "commit_id (?n - first_index h commits) \<noteq> commit_id (?n - j)"
      if h: "h \<in> hash ` set commits" for h
    proof
      assume "commit_id (?n - first_index h commits) = commit_id (?n - j)"
      then have "?n - first_index h commits = ?n - j" by (rule commit_id_inj)
      then have "first_index h commits = j" using first_index_less [OF h] j by simp
      then show False using other [OF h] by simp
    qed
    then show "fst e \<noteq> commit_id (?n - j) \<and> snd e \<noteq> commit_id (?n - j)"
      using ee p c by simp
  qed
  show ?thesis using np b 1 2 3 4 by blast
qed

text \<open>
  C10 at two records with the same hash: the hash resolves to \<open>Commit2\<close>, the node of
  the first record, and \<open>Commit1\<close> is on no derives edge.
\<close>

theorem duplicate_hash_resolves_to_first_record_witness:
  "1 < length dup_commits
   \<and> first_index (hash (dup_commits ! 1)) dup_commits \<noteq> 1
   \<and> ''h'' \<in> hash ` set dup_commits
   \<and> (\<exists>g1 cd fd g. node_pass dup_commits = Inr (g1, cd, fd) \<and> build_lines dup_commits = Inr g
         \<and> map_of cd ''h'' = Some (commit_id 2)
         \<and> commit_nodes g ! 1 = (''new'', commit_id 2)
         \<and> derives_edges g = [(''Commit2'', ''Commit2'')]
         \<and> (\<forall>e\<in>set (derives_edges g). fst e \<noteq> commit_id 1 \<and> snd e \<noteq> commit_id 1))"
proof -
  have len: "length dup_commits = 2" by (simp add: dup_commits_def)
  have j: "1 < length dup_commits" by (simp add: len)
  have f: "first_index (hash (dup_commits ! 1)) dup_commits \<noteq> 1"
    by (simp add: dup_commits_def first_index_def)
  have h: "''h'' \<in> hash ` set dup_commits" by (simp add: dup_commits_def)
  have fi: "first_index ''h'' dup_commits = 0" by (simp add: dup_commits_def first_index_def)
  from duplicate_hash_resolves_to_first_record [of dup_commits]
  obtain g1 cd fd g where all: "node_pass dup_commits = Inr (g1, cd, fd) \<and> build_lines dup_commits = Inr g
    \<and> (\<forall>j<length dup_commits. commit_nodes g ! (length dup_commits - Suc j) =
          (message (dup_commits ! j), commit_id (length dup_commits - j)))
    \<and> (\<forall>h\<in>hash ` set dup_commits.
          map_of cd h = Some (commit_id (length dup_commits - first_index h dup_commits))
          \<and> first_index h dup_commits < length dup_commits
          \<and> hash (dup_commits ! first_index h dup_commits) = h
          \<and> (\<forall>i<first_index h dup_commits. hash (dup_commits ! i) \<noteq> h))
    \<and> (\<forall>e\<in>set (derives_edges g). \<exists>c\<in>set dup_commits. \<exists>p\<in>set (parents c).
          p \<in> hash ` set dup_commits
          \<and> e = (commit_id (length dup_commits - first_index p dup_commits),
                 commit_id (length dup_commits - first_index (hash c) dup_commits)))
    \<and> (\<forall>j<length dup_commits. first_index (hash (dup_commits ! j)) dup_commits \<noteq> j \<longrightarrow>
          (\<forall>e\<in>set (derives_edges g).
             fst e \<noteq> commit_id (length dup_commits - j) \<and> snd e \<noteq> commit_id (length dup_commits - j)))"
    by (elim exE) (erule that)
  note np = all [THEN conjunct1]
  note b = all [THEN conjunct2, THEN conjunct1]
  note n = all [THEN conjunct2, THEN conjunct2, THEN conjunct1]
  note m = all [THEN conjunct2, THEN conjunct2, THEN conjunct2, THEN conjunct1]
  note o = all [THEN conjunct2, THEN conjunct2, THEN conjunct2, THEN conjunct2, THEN conjunct2]
  from m h have "map_of cd ''h'' = Some (commit_id (length dup_commits - first_index ''h'' dup_commits))
          \<and> first_index ''h'' dup_commits < length dup_commits
          \<and> hash (dup_commits ! first_index ''h'' dup_commits) = ''h''
          \<and> (\<forall>i<first_index ''h'' dup_commits. hash (dup_commits ! i) \<noteq> ''h'')"
    by (rule bspec)
  then have "map_of cd ''h'' = Some (commit_id (length dup_commits - first_index ''h'' dup_commits))"
    by (rule conjunct1)
  then have 1: "map_of cd ''h'' = Some (commit_id 2)" by (simp add: fi len)
  from n have "0 < length dup_commits \<longrightarrow> commit_nodes g ! (length dup_commits - Suc 0) =
      (message (dup_commits ! 0), commit_id (length dup_commits - 0))" by (rule spec)
  then have "commit_nodes g ! (length dup_commits - Suc 0) =
      (message (dup_commits ! 0), commit_id (length dup_commits - 0))" by (simp add: len)
  then have 2: "commit_nodes g ! 1 = (''new'', commit_id 2)"
    unfolding len by (simp add: dup_commits_def)
  from o have "1 < length dup_commits \<longrightarrow> first_index (hash (dup_commits ! 1)) dup_commits \<noteq> 1 \<longrightarrow>
      (\<forall>e\<in>set (derives_edges g).
         fst e \<noteq> commit_id (length dup_commits - 1) \<and> snd e \<noteq> commit_id (length dup_commits - 1))"
    by (rule spec)
  with j f have "\<forall>e\<in>set (derives_edges g).
      fst e \<noteq> commit_id (length dup_commits - 1) \<and> snd e \<noteq> commit_id (length dup_commits - 1)"
    by simp
  then have 3: "\<forall>e\<in>set (derives_edges g). fst e \<noteq> commit_id 1 \<and> snd e \<noteq> commit_id 1"
    by (simp add: len)
  have "map_sum id derives_edges (build_lines dup_commits) = Inr [(''Commit2'', ''Commit2'')]"
    by code_simp
  with b have 4: "derives_edges g = [(''Commit2'', ''Commit2'')]" by simp
  have "\<exists>g1 cd fd g. node_pass dup_commits = Inr (g1, cd, fd) \<and> build_lines dup_commits = Inr g
         \<and> map_of cd ''h'' = Some (commit_id 2)
         \<and> commit_nodes g ! 1 = (''new'', commit_id 2)
         \<and> derives_edges g = [(''Commit2'', ''Commit2'')]
         \<and> (\<forall>e\<in>set (derives_edges g). fst e \<noteq> commit_id 1 \<and> snd e \<noteq> commit_id 1)"
    using np b 1 2 3 4 by (intro exI conjI)
  then show ?thesis using j f h by (intro conjI)
qed

subsection \<open>Determinism\<close>

text \<open>
  C9. Take two runs of the builder on the same commit sequence whose dictionaries hold
  their entries in any two orders (\<open>store1\<close>, \<open>store2\<close>). Both runs return, with the
  same lines in the same order and the same text, which are those of \<open>build_graph\<close>
  itself; both assign the same identifiers, namely to every hash the node of the first
  input record carrying it and to every path its first-seen file number; and the nodes
  and edges are the lists written out below, functions of the sequence alone.
\<close>

theorem build_graph_deterministic:
  assumes "rearranges store1" and "rearranges store2"
  shows "\<exists>g1 cd1 fd1 cd2 fd2 g out.
       node_pass_stored store1 commits = Inr (g1, cd1, fd1)
     \<and> node_pass_stored store2 commits = Inr (g1, cd2, fd2)
     \<and> map_of cd2 = map_of cd1 \<and> map_of fd2 = map_of fd1
     \<and> (\<forall>h\<in>hash ` set commits. map_of cd1 h = Some (node_of commits h))
     \<and> (\<forall>p\<in>set (concat (map files commits)). map_of fd1 p = Some (file_of commits p))
     \<and> build_lines_stored store1 commits = Inr g
     \<and> build_lines_stored store2 commits = Inr g
     \<and> build_lines commits = Inr g
     \<and> commit_nodes g = map (\<lambda>(i, c). (message c, commit_id (Suc i))) (enumerate 0 (rev commits))
     \<and> file_nodes g = map (\<lambda>p. (p, file_of commits p)) (first_occ (concat (map files (rev commits))))
     \<and> touched_edges g =
          concat (map (\<lambda>(i, c). map (\<lambda>p. (commit_id (Suc i), file_of commits p)) (files c))
            (enumerate 0 (rev commits)))
     \<and> derives_edges g =
          concat (map (\<lambda>c. map (\<lambda>p. (node_of commits p, node_of commits (hash c)))
                            (filter (\<lambda>p. p \<in> hash ` set commits) (parents c))) (rev commits))
     \<and> build_graph_stored store1 commits = Inr out
     \<and> build_graph_stored store2 commits = Inr out
     \<and> build_graph commits = Inr out"
proof -
  let ?A = "concat (map files (rev commits))"
  from graph_closed_form [of commits]
  obtain g1 cd fd g where np: "node_pass commits = Inr (g1, cd, fd)"
    and b: "build_lines commits = Inr g"
    and cd: "\<forall>h. map_of cd h = (if h \<in> hash ` set commits then Some (node_of commits h) else None)"
    and tab: "fd = map (\<lambda>p. (p, file_of commits p)) (first_occ ?A)"
    and cn: "commit_nodes g = map (\<lambda>(i, c). (message c, commit_id (Suc i))) (enumerate 0 (rev commits))"
    and fn: "file_nodes g = map (\<lambda>p. (p, file_of commits p)) (first_occ ?A)"
    and t: "touched_edges g =
          concat (map (\<lambda>(i, c). map (\<lambda>p. (commit_id (Suc i), file_of commits p)) (files c))
            (enumerate 0 (rev commits)))"
    and d: "derives_edges g =
          concat (map (\<lambda>c. map (\<lambda>p. (node_of commits p, node_of commits (hash c)))
                            (filter (\<lambda>p. p \<in> hash ` set commits) (parents c))) (rev commits))"
    by blast
  from build_stored_eq [OF assms(1), of commits]
  obtain g1a cda fda cd1 fd1 where
    npa: "node_pass commits = Inr (g1a, cda, fda)"
    and s1: "node_pass_stored store1 commits = Inr (g1a, cd1, fd1)"
    and m1: "map_of cd1 = map_of cda" "map_of fd1 = map_of fda"
    and l1: "build_lines_stored store1 commits = build_lines commits"
    and t1: "build_graph_stored store1 commits = build_graph commits" by blast
  from build_stored_eq [OF assms(2), of commits]
  obtain g1b cdb fdb cd2 fd2 where
    npb: "node_pass commits = Inr (g1b, cdb, fdb)"
    and s2: "node_pass_stored store2 commits = Inr (g1b, cd2, fd2)"
    and m2: "map_of cd2 = map_of cdb" "map_of fd2 = map_of fdb"
    and l2: "build_lines_stored store2 commits = build_lines commits"
    and t2: "build_graph_stored store2 commits = build_graph commits" by blast
  have ea: "g1a = g1" "cda = cd" "fda = fd" using np npa by simp_all
  have eb: "g1b = g1" "cdb = cd" "fdb = fd" using np npb by simp_all
  have 1: "node_pass_stored store1 commits = Inr (g1, cd1, fd1)" using s1 ea by simp
  have 2: "node_pass_stored store2 commits = Inr (g1, cd2, fd2)" using s2 eb by simp
  have 3: "map_of cd2 = map_of cd1" using m1 m2 ea eb by simp
  have 4: "map_of fd2 = map_of fd1" using m1 m2 ea eb by simp
  have 5: "\<forall>h\<in>hash ` set commits. map_of cd1 h = Some (node_of commits h)"
    using cd m1 ea by simp
  have "map_of fd = (Some \<circ> file_of commits) |` set (first_occ ?A)"
    unfolding tab by (rule map_of_map_restrict)
  then have 6: "\<forall>p\<in>set (concat (map files commits)). map_of fd1 p = Some (file_of commits p)"
    using m1 ea by (auto simp: set_first_occ restrict_map_def)
  have 7: "build_lines_stored store1 commits = Inr g" using l1 b by simp
  have 8: "build_lines_stored store2 commits = Inr g" using l2 b by simp
  let ?out = "join [CHR 0x0A] (map render g)"
  have 9: "build_graph commits = Inr ?out" using b by (simp add: build_graph_def)
  have 10: "build_graph_stored store1 commits = Inr ?out" using t1 9 by simp
  have 11: "build_graph_stored store2 commits = Inr ?out" using t2 9 by simp
  show ?thesis
    apply (rule exI [of _ g1], rule exI [of _ cd1], rule exI [of _ fd1], rule exI [of _ cd2],
           rule exI [of _ fd2], rule exI [of _ g], rule exI [of _ ?out])
    apply (intro conjI)
    apply (rule 1, rule 2, rule 3, rule 4, rule 5, rule 6, rule 7, rule 8, rule b, rule cn, rule fn,
           rule t, rule d, rule 10, rule 11, rule 9)
    done
qed

text \<open>
  C9 with the dictionaries stored in reverse insertion order and in insertion order: the
  commit dictionaries differ in order, the text is the same.
\<close>

theorem build_graph_deterministic_witness:
  "rearranges rev \<and> rearranges (\<lambda>d. d)
   \<and> (\<exists>out. build_graph_stored rev known_unknown = Inr out
          \<and> build_graph_stored (\<lambda>d. d) known_unknown = Inr out
          \<and> build_graph known_unknown = Inr out)
   \<and> map_sum id (fst \<circ> snd) (node_pass_stored rev known_unknown) =
        Inr [(''b'', ''Commit2''), (''a'', ''Commit1'')]
   \<and> map_sum id (fst \<circ> snd) (node_pass_stored (\<lambda>d. d) known_unknown) =
        Inr [(''a'', ''Commit1''), (''b'', ''Commit2'')]"
proof -
  have r1: "rearranges rev" by (simp add: rearranges_def)
  have r2: "rearranges (\<lambda>d. d)" by (simp add: rearranges_def)
  from build_graph_deterministic [OF r1 r2, of known_unknown]
  obtain g1 cd1 fd1 cd2 fd2 g out where all: "node_pass_stored rev known_unknown = Inr (g1, cd1, fd1)
     \<and> node_pass_stored (\<lambda>d. d) known_unknown = Inr (g1, cd2, fd2)
     \<and> map_of cd2 = map_of cd1 \<and> map_of fd2 = map_of fd1
     \<and> (\<forall>h\<in>hash ` set known_unknown. map_of cd1 h = Some (node_of known_unknown h))
     \<and> (\<forall>p\<in>set (concat (map files known_unknown)). map_of fd1 p = Some (file_of known_unknown p))
     \<and> build_lines_stored rev known_unknown = Inr g
     \<and> build_lines_stored (\<lambda>d. d) known_unknown = Inr g
     \<and> build_lines known_unknown = Inr g
     \<and> commit_nodes g = map (\<lambda>(i, c). (message c, commit_id (Suc i))) (enumerate 0 (rev known_unknown))
     \<and> file_nodes g = map (\<lambda>p. (p, file_of known_unknown p)) (first_occ (concat (map files (rev known_unknown))))
     \<and> touched_edges g =
          concat (map (\<lambda>(i, c). map (\<lambda>p. (commit_id (Suc i), file_of known_unknown p)) (files c))
            (enumerate 0 (rev known_unknown)))
     \<and> derives_edges g =
          concat (map (\<lambda>c. map (\<lambda>p. (node_of known_unknown p, node_of known_unknown (hash c)))
                            (filter (\<lambda>p. p \<in> hash ` set known_unknown) (parents c))) (rev known_unknown))
     \<and> build_graph_stored rev known_unknown = Inr out
     \<and> build_graph_stored (\<lambda>d. d) known_unknown = Inr out
     \<and> build_graph known_unknown = Inr out"
    by (elim exE) (erule that)
  note o1 = all [THEN conjunct2, THEN conjunct2, THEN conjunct2, THEN conjunct2, THEN conjunct2, THEN conjunct2, THEN conjunct2, THEN conjunct2, THEN conjunct2, THEN conjunct2, THEN conjunct2, THEN conjunct2, THEN conjunct2, THEN conjunct1]
  note o2 = all [THEN conjunct2, THEN conjunct2, THEN conjunct2, THEN conjunct2, THEN conjunct2, THEN conjunct2, THEN conjunct2, THEN conjunct2, THEN conjunct2, THEN conjunct2, THEN conjunct2, THEN conjunct2, THEN conjunct2, THEN conjunct2, THEN conjunct1]
  note o3 = all [THEN conjunct2, THEN conjunct2, THEN conjunct2, THEN conjunct2, THEN conjunct2, THEN conjunct2, THEN conjunct2, THEN conjunct2, THEN conjunct2, THEN conjunct2, THEN conjunct2, THEN conjunct2, THEN conjunct2, THEN conjunct2, THEN conjunct2]
  have 1: "\<exists>out. build_graph_stored rev known_unknown = Inr out
          \<and> build_graph_stored (\<lambda>d. d) known_unknown = Inr out
          \<and> build_graph known_unknown = Inr out"
    using o1 o2 o3 by (intro exI conjI)
  have 2: "map_sum id (fst \<circ> snd) (node_pass_stored rev known_unknown) =
        Inr [(''b'', ''Commit2''), (''a'', ''Commit1'')]" by code_simp
  have 3: "map_sum id (fst \<circ> snd) (node_pass_stored (\<lambda>d. d) known_unknown) =
        Inr [(''a'', ''Commit1''), (''b'', ''Commit2'')]" by code_simp
  show ?thesis using r1 r2 1 2 3 by (intro conjI)
qed

end
